theory Spec2Isabelle
  imports Complex_Main
begin

section \<open>Conventions of the embedding\<close>

text \<open>
  The development embeds \<open>neffint/fixed_grid_fourier_integral.py\<close>.  NumPy's
  \<open>float64\<close> and \<open>complex128\<close> values are idealised as \<open>real\<close> and \<open>complex\<close>
  numbers, so every statement below is about the algorithm and not about rounding.
  Machine epsilon (\<open>np.finfo(x.dtype).eps\<close>) is a parameter \<open>eps\<close>.
  A Python exception is a value \<open>Inl e\<close> of the result type \<open>error + 'a\<close>.
\<close>

datatype error =
    RuntimeError string
  | ValueError string
  | IndexError string

definition ebind :: "error + 'a \<Rightarrow> ('a \<Rightarrow> error + 'b) \<Rightarrow> error + 'b" where
  "ebind m f = (case m of Inl e \<Rightarrow> Inl e | Inr x \<Rightarrow> f x)"

definition MAX_TAYLOR_ITERATIONS :: nat where
  "MAX_TAYLOR_ITERATIONS = 1000"

section \<open>Arrays\<close>

text \<open>
  An \<open>ndarray\<close> is its shape and its element at every multi-index.  Only the elements
  at the indices of \<open>indices (shape a)\<close> (the valid ones, in C order) are meaningful.
\<close>

datatype 'a ndarray = NdArray (shape: "nat list") (item: "nat list \<Rightarrow> 'a")

fun indices :: "nat list \<Rightarrow> nat list list" where
  "indices [] = [[]]"
| "indices (n # s) = concat (map (\<lambda>i. map ((#) i) (indices s)) [0..<n])"

fun flat_index :: "nat list \<Rightarrow> nat list \<Rightarrow> nat" where
  "flat_index (n # s) (i # idx) = i * prod_list s + flat_index s idx"
| "flat_index _ _ = 0"

text \<open>\<open>ravel\<close> lists the elements in C order; \<open>unravel\<close> is \<open>reshape\<close> of a flat list.\<close>

definition ravel :: "'a ndarray \<Rightarrow> 'a list" where
  "ravel a = map (item a) (indices (shape a))"

definition unravel :: "nat list \<Rightarrow> 'a list \<Rightarrow> 'a ndarray" where
  "unravel s ys = NdArray s (\<lambda>idx. ys ! flat_index s idx)"

definition array1 :: "'a list \<Rightarrow> 'a ndarray" where
  "array1 xs = NdArray [length xs] (\<lambda>idx. xs ! hd idx)"

definition map_array :: "('a \<Rightarrow> 'b) \<Rightarrow> 'a ndarray \<Rightarrow> 'b ndarray" where
  "map_array f a = NdArray (shape a) (\<lambda>idx. f (item a idx))"

subsection \<open>Broadcasting\<close>

text \<open>
  NumPy aligns two shapes at their last axes, reads a missing leading axis as 1, and
  stretches an axis of length 1; any other mismatch raises \<open>ValueError\<close>.
\<close>

definition pad_shape :: "nat \<Rightarrow> nat list \<Rightarrow> nat list" where
  "pad_shape k s = replicate (k - length s) 1 @ s"

definition compat_dim :: "nat \<Rightarrow> nat \<Rightarrow> bool" where
  "compat_dim a b = (a = b \<or> a = 1 \<or> b = 1)"

definition bc_dim :: "nat \<Rightarrow> nat \<Rightarrow> nat" where
  "bc_dim a b = (if a = 1 then b else a)"

definition broadcast_shapes :: "nat list \<Rightarrow> nat list \<Rightarrow> error + nat list" where
  "broadcast_shapes s t =
     (let k = max (length s) (length t); s' = pad_shape k s; t' = pad_shape k t
      in if list_all2 compat_dim s' t' then Inr (map2 bc_dim s' t')
         else Inl (ValueError ''operands could not be broadcast together''))"

definition clip_dim :: "nat \<Rightarrow> nat \<Rightarrow> nat" where
  "clip_dim n i = (if n = 1 then 0 else i)"

definition bc_index :: "nat list \<Rightarrow> nat list \<Rightarrow> nat list" where
  "bc_index s idx = map2 clip_dim s (drop (length idx - length s) idx)"

definition broadcast2 :: "('a \<Rightarrow> 'b \<Rightarrow> 'c) \<Rightarrow> 'a ndarray \<Rightarrow> 'b ndarray \<Rightarrow> error + 'c ndarray" where
  "broadcast2 f a b =
     ebind (broadcast_shapes (shape a) (shape b)) (\<lambda>s.
       Inr (NdArray s (\<lambda>idx. f (item a (bc_index (shape a) idx)) (item b (bc_index (shape b) idx)))))"

text \<open>\<open>r += a\<close>: the broadcast shape must be the shape of \<open>r\<close> itself.\<close>

definition iadd :: "complex ndarray \<Rightarrow> complex ndarray \<Rightarrow> error + complex ndarray" where
  "iadd r a =
     ebind (broadcast_shapes (shape r) (shape a)) (\<lambda>s.
       if s = shape r
       then Inr (NdArray s (\<lambda>idx. item r idx + item a (bc_index (shape a) idx)))
       else Inl (ValueError ''non-broadcastable output operand''))"

subsection \<open>Boolean masks on flat data\<close>

text \<open>
  \<open>x[mask]\<close> selects, in C order, the elements where the mask holds; \<open>r[mask] = vs\<close>
  writes \<open>vs\<close> back to those positions.  \<open>bool(a)\<close> of an array is the element of a
  one-element array and \<open>ValueError\<close> for two or more elements; for an empty array it
  is \<open>False\<close> (with a deprecation warning) before NumPy 2.2 and \<open>ValueError\<close> from
  2.2 on, which \<open>numpy_rules\<close> selects.
\<close>

definition compress :: "bool list \<Rightarrow> 'a list \<Rightarrow> 'a list" where
  "compress msk xs = map snd (filter fst (zip msk xs))"

fun place :: "bool list \<Rightarrow> 'a list \<Rightarrow> 'a list \<Rightarrow> 'a list" where
  "place (b # bs) (r # rs) vs =
     (if b then (case vs of [] \<Rightarrow> r # place bs rs [] | v # vs' \<Rightarrow> v # place bs rs vs')
      else r # place bs rs vs)"
| "place _ rs _ = rs"

datatype numpy_rules = Legacy | Strict

fun array_truth :: "numpy_rules \<Rightarrow> bool list \<Rightarrow> error + bool" where
  "array_truth Legacy [] = Inr False"
| "array_truth Strict [] = Inl (ValueError ''The truth value of an empty array is ambiguous'')"
| "array_truth _ [b] = Inr b"
| "array_truth _ _ =
     Inl (ValueError ''The truth value of an array with more than one element is ambiguous'')"

section \<open>The kernels Lambda, Phi and Psi\<close>

subsection \<open>\<open>_lambda\<close>\<close>

definition lambda_closed :: "real \<Rightarrow> complex" where
  "lambda_closed xx =
     (let exp_jx = exp (\<i> * complex_of_real xx)
      in - \<i> * exp_jx / complex_of_real xx + (exp_jx - 1) / complex_of_real (xx ^ 2))"

record lambda_vars =
  lam_result :: "complex list"
  lam_jx_to_n :: "complex list"
  lam_abs_x_to_n_plus_1 :: "real list"
  lam_inv_factorial :: real

text \<open>\<open>result[taylor_mask] += 1/(n+2) * jx_to_n * inv_factorial\<close>\<close>

definition lambda_add_term :: "bool list \<Rightarrow> nat \<Rightarrow> lambda_vars \<Rightarrow> lambda_vars" where
  "lambda_add_term taylor_mask n st =
     st\<lparr>lam_result :=
          place taylor_mask (lam_result st)
            (map2 (+) (compress taylor_mask (lam_result st))
               (map (\<lambda>j. complex_of_real (1 / real (n + 2)) * j * complex_of_real (lam_inv_factorial st))
                  (lam_jx_to_n st)))\<rparr>"

text \<open>The array \<open>remaining_term_bound < rel_tolerance * min_component\<close>.\<close>

definition lambda_check :: "real \<Rightarrow> bool list \<Rightarrow> real list \<Rightarrow> nat \<Rightarrow> lambda_vars \<Rightarrow> bool list" where
  "lambda_check rel_tolerance taylor_mask xx n st =
     (let r = compress taylor_mask (lam_result st);
          min_component = map (\<lambda>z. min \<bar>Re z\<bar> \<bar>Im z\<bar>) r;
          exp_abs_x = map (\<lambda>x. exp \<bar>x\<bar>) xx;
          remaining_term_bound =
            map2 (\<lambda>a e. a * e * lam_inv_factorial st * 1 / real ((n + 3) * (n + 1)))
              (lam_abs_x_to_n_plus_1 st) exp_abs_x
      in map2 (\<lambda>b m. b < rel_tolerance * m) remaining_term_bound min_component)"

definition lambda_update :: "real list \<Rightarrow> nat \<Rightarrow> lambda_vars \<Rightarrow> lambda_vars" where
  "lambda_update xx n st =
     st\<lparr>lam_jx_to_n := map2 (\<lambda>j x. j * (\<i> * complex_of_real x)) (lam_jx_to_n st) xx,
        lam_abs_x_to_n_plus_1 := map2 (\<lambda>a x. a * \<bar>x\<bar>) (lam_abs_x_to_n_plus_1 st) xx,
        lam_inv_factorial := lam_inv_factorial st / real (n + 1)\<rparr>"

text \<open>
  The \<open>for n in range(...)\<close> loop, given the values of \<open>n\<close> still to run and the last
  value \<open>n\<close> was bound to.  It returns the value of \<open>n\<close> after the loop with the
  variables; \<open>if\<close> on the comparison array can raise.
\<close>

fun lambda_loop ::
  "numpy_rules \<Rightarrow> real \<Rightarrow> bool list \<Rightarrow> real list \<Rightarrow> nat list \<Rightarrow> nat \<Rightarrow> lambda_vars
     \<Rightarrow> error + (nat \<times> lambda_vars)" where
  "lambda_loop rules rel_tolerance taylor_mask xx [] last_n st = Inr (last_n, st)"
| "lambda_loop rules rel_tolerance taylor_mask xx (n # ns) last_n st =
     (let st1 = lambda_add_term taylor_mask n st
      in ebind (array_truth rules (lambda_check rel_tolerance taylor_mask xx n st1)) (\<lambda>stop.
           if stop then Inr (n, st1)
           else lambda_loop rules rel_tolerance taylor_mask xx ns n (lambda_update xx n st1)))"

text \<open>\<open>_lambda\<close> on the flat data of its argument.\<close>

definition lambda_flat :: "numpy_rules \<Rightarrow> real \<Rightarrow> real list \<Rightarrow> error + complex list" where
  "lambda_flat rules rel_tolerance x =
     (let result0 = map (\<lambda>_. 0) x;
          taylor_mask = map (\<lambda>x. \<bar>x\<bar> < 1) x;
          not_mask = map Not taylor_mask;
          result1 = place not_mask result0 (map lambda_closed (compress not_mask x));
          xx = compress taylor_mask x;
          st0 = \<lparr>lam_result = result1,
                 lam_jx_to_n = map (\<lambda>_. 1) xx,
                 lam_abs_x_to_n_plus_1 = map abs xx,
                 lam_inv_factorial = 1\<rparr>
      in ebind (lambda_loop rules rel_tolerance taylor_mask xx [0..<MAX_TAYLOR_ITERATIONS + 1] 0 st0)
           (\<lambda>(n, st).
              if n = MAX_TAYLOR_ITERATIONS
              then Inl (RuntimeError ''Lambda calculation failed to converge after 1000 iterations'')
              else Inr (lam_result st)))"

definition lambda_fn :: "numpy_rules \<Rightarrow> real \<Rightarrow> real ndarray \<Rightarrow> error + complex ndarray" where
  "lambda_fn rules rel_tolerance x =
     ebind (lambda_flat rules rel_tolerance (ravel x)) (\<lambda>r. Inr (unravel (shape x) r))"

subsection \<open>\<open>_phi_and_psi\<close>\<close>

definition phi_closed :: "real \<Rightarrow> complex" where
  "phi_closed xx =
     (let exp_jx = exp (\<i> * complex_of_real xx); x = complex_of_real xx
      in (- \<i> * x ^ 3 * exp_jx - 6 * \<i> * x * (exp_jx + 1) + 12 * (exp_jx - 1)) / x ^ 4)"

definition psi_closed :: "real \<Rightarrow> complex" where
  "psi_closed xx =
     (let exp_jx = exp (\<i> * complex_of_real xx); x = complex_of_real xx
      in (x ^ 2 * exp_jx + 2 * \<i> * x * (2 * exp_jx + 1) - 6 * (exp_jx - 1)) / x ^ 4)"

record kernel_vars =
  phi :: "complex list"
  psi :: "complex list"
  jx_to_n :: "complex list"
  abs_x_to_n_plus_1 :: "real list"
  inv_factorial :: real
  phi_converged :: bool
  psi_converged :: bool

definition min_component :: "complex list \<Rightarrow> real list" where
  "min_component zs = map (\<lambda>z. min \<bar>Re z\<bar> \<bar>Im z\<bar>) zs"

text \<open>The branch \<open>if not phi_converged\<close> of one pass; \<open>np.all\<close> of an empty array is \<open>True\<close>.\<close>

definition phi_pass :: "real \<Rightarrow> bool list \<Rightarrow> real list \<Rightarrow> nat \<Rightarrow> kernel_vars \<Rightarrow> kernel_vars" where
  "phi_pass rel_tolerance taylor_mask xx n st =
     (let phi1 = place taylor_mask (phi st)
                   (map2 (+) (compress taylor_mask (phi st))
                      (map (\<lambda>j. complex_of_real (real (n + 6) / real ((n + 3) * (n + 4))) * j
                                 * complex_of_real (inv_factorial st)) (jx_to_n st)));
          min_phi_component = min_component (compress taylor_mask phi1);
          phi_remaining_terms_bound =
            map2 (\<lambda>a x. 2 * a * exp \<bar>x\<bar> * inv_factorial st / real ((n + 1) * (n + 5)))
              (abs_x_to_n_plus_1 st) xx
      in st\<lparr>phi := phi1,
            phi_converged :=
              list_all id (map2 (\<lambda>b m. b < rel_tolerance * m) phi_remaining_terms_bound min_phi_component)\<rparr>)"

definition psi_pass :: "real \<Rightarrow> bool list \<Rightarrow> real list \<Rightarrow> nat \<Rightarrow> kernel_vars \<Rightarrow> kernel_vars" where
  "psi_pass rel_tolerance taylor_mask xx n st =
     (let psi1 = place taylor_mask (psi st)
                   (map2 (+) (compress taylor_mask (psi st))
                      (map (\<lambda>j. complex_of_real (- 1 / real ((n + 3) * (n + 4))) * j
                                 * complex_of_real (inv_factorial st)) (jx_to_n st)));
          min_psi_component = min_component (compress taylor_mask psi1);
          psi_remaining_terms_bound =
            map2 (\<lambda>a x. a * exp \<bar>x\<bar> * inv_factorial st / real ((n + 1) * (n + 4) * (n + 5)))
              (abs_x_to_n_plus_1 st) xx
      in st\<lparr>psi := psi1,
            psi_converged :=
              list_all id (map2 (\<lambda>b m. b < rel_tolerance * m) psi_remaining_terms_bound min_psi_component)\<rparr>)"

definition kernel_update :: "real list \<Rightarrow> nat \<Rightarrow> kernel_vars \<Rightarrow> kernel_vars" where
  "kernel_update xx n st =
     st\<lparr>jx_to_n := map2 (\<lambda>j x. j * (\<i> * complex_of_real x)) (jx_to_n st) xx,
        abs_x_to_n_plus_1 := map2 (\<lambda>a x. a * \<bar>x\<bar>) (abs_x_to_n_plus_1 st) xx,
        inv_factorial := inv_factorial st / real (n + 1)\<rparr>"

text \<open>The body of the loop after the \<open>break\<close> test.\<close>

definition kernel_pass :: "real \<Rightarrow> bool list \<Rightarrow> real list \<Rightarrow> nat \<Rightarrow> kernel_vars \<Rightarrow> kernel_vars" where
  "kernel_pass rel_tolerance taylor_mask xx n st =
     (let st1 = (if \<not> phi_converged st then phi_pass rel_tolerance taylor_mask xx n st else st);
          st2 = (if \<not> psi_converged st1 then psi_pass rel_tolerance taylor_mask xx n st1 else st1)
      in kernel_update xx n st2)"

fun kernel_loop :: "real \<Rightarrow> bool list \<Rightarrow> real list \<Rightarrow> nat list \<Rightarrow> kernel_vars \<Rightarrow> kernel_vars" where
  "kernel_loop rel_tolerance taylor_mask xx [] st = st"
| "kernel_loop rel_tolerance taylor_mask xx (n # ns) st =
     (if phi_converged st \<and> psi_converged st then st
      else kernel_loop rel_tolerance taylor_mask xx ns (kernel_pass rel_tolerance taylor_mask xx n st))"

text \<open>The final check of the flags (lines 192 to 196).\<close>

definition phi_and_psi_outcome :: "kernel_vars \<Rightarrow> error + (complex list \<times> complex list)" where
  "phi_and_psi_outcome st =
     (if \<not> (phi_converged st \<and> psi_converged st)
      then Inl (RuntimeError ''Phi and Psi calculation failed to converge after 1000 iterations'')
      else Inr (phi st, psi st))"

definition phi_and_psi_flat :: "real \<Rightarrow> real list \<Rightarrow> error + (complex list \<times> complex list)" where
  "phi_and_psi_flat rel_tolerance x =
     (let taylor_mask = map (\<lambda>x. \<bar>x\<bar> < 1) x;
          not_mask = map Not taylor_mask;
          phi0 = place not_mask (map (\<lambda>_. 0) x) (map phi_closed (compress not_mask x));
          psi0 = place not_mask (map (\<lambda>_. 0) x) (map psi_closed (compress not_mask x));
          xx = compress taylor_mask x;
          st0 = \<lparr>phi = phi0, psi = psi0,
                 jx_to_n = map (\<lambda>_. 1) xx,
                 abs_x_to_n_plus_1 = map abs xx,
                 inv_factorial = 1,
                 phi_converged = False, psi_converged = False\<rparr>
      in phi_and_psi_outcome
           (kernel_loop rel_tolerance taylor_mask xx [0..<MAX_TAYLOR_ITERATIONS + 1] st0))"

definition phi_and_psi :: "real \<Rightarrow> real ndarray \<Rightarrow> error + (complex ndarray \<times> complex ndarray)" where
  "phi_and_psi rel_tolerance x =
     ebind (phi_and_psi_flat rel_tolerance (ravel x)) (\<lambda>(p, q).
       Inr (unravel (shape x) p, unravel (shape x) q))"

section \<open>The complex interpolant\<close>

text \<open>
  \<open>scipy.interpolate.pchip_interpolate(xi, yi, x, der, axis)\<close> is not part of the
  repository: it is a parameter of the embedding, a function that returns an array or
  raises.
\<close>

type_synonym pchip_prim =
  "real list \<Rightarrow> real ndarray \<Rightarrow> real list \<Rightarrow> nat \<Rightarrow> nat \<Rightarrow> error + real ndarray"

definition complex_pchip ::
  "pchip_prim \<Rightarrow> real list \<Rightarrow> complex ndarray \<Rightarrow> real list \<Rightarrow> nat \<Rightarrow> nat \<Rightarrow> error + complex ndarray" where
  "complex_pchip pchip_interpolate xi zi x derivative_order axis =
     ebind (pchip_interpolate xi (map_array Re zi) x derivative_order axis) (\<lambda>re_part.
     ebind (pchip_interpolate xi (map_array Im zi) x derivative_order axis) (\<lambda>im_part.
       broadcast2 (\<lambda>a b. complex_of_real a + b) re_part
         (map_array (\<lambda>b. \<i> * complex_of_real b) im_part)))"

section \<open>The asymptotic correction\<close>

text \<open>\<open>a[..., np.newaxis]\<close> and \<open>a[np.newaxis, ...]\<close>.\<close>

definition expand_last :: "'a ndarray \<Rightarrow> 'a ndarray" where
  "expand_last a = NdArray (shape a @ [1]) (\<lambda>idx. item a (butlast idx))"

definition expand_first :: "'a ndarray \<Rightarrow> 'a ndarray" where
  "expand_first a = NdArray (1 # shape a) (\<lambda>idx. item a (tl idx))"

definition fourier_integral_inf_correction ::
  "real ndarray \<Rightarrow> real \<Rightarrow> complex ndarray \<Rightarrow> complex ndarray \<Rightarrow> bool \<Rightarrow> error + complex ndarray" where
  "fourier_integral_inf_correction times' omega_end func_value_end func_derivative_end positive_inf =
     (let sign = (if positive_inf then 1 else - 1);
          times1 = (expand_last ^^ length (shape func_value_end)) times';
          fve = expand_first func_value_end;
          fde = expand_first func_derivative_end;
          front = map_array (\<lambda>t. sign * exp (\<i> * complex_of_real t * complex_of_real omega_end)) times1
      in ebind (broadcast2 (\<lambda>v t. \<i> * v / complex_of_real t) fve times1) (\<lambda>a.
         ebind (broadcast2 (\<lambda>d t2. d / complex_of_real t2) fde (map_array (\<lambda>t. t ^ 2) times1)) (\<lambda>b.
         ebind (broadcast2 (-) a b) (\<lambda>c.
         broadcast2 (*) front c))))"

section \<open>The Filon quadrature\<close>

text \<open>\<open>a[-1]\<close> and \<open>a[0]\<close> on a list and on an array, \<open>a[:, :-1]\<close>, \<open>a[:, 1:]\<close>,
  \<open>np.diff(a, axis=1)\<close> and \<open>np.sum(a, axis=1)\<close>.\<close>

definition last_elem :: "'a list \<Rightarrow> error + 'a" where
  "last_elem xs = (if xs = [] then Inl (IndexError ''index -1 is out of bounds'') else Inr (last xs))"

definition first_elem :: "'a list \<Rightarrow> error + 'a" where
  "first_elem xs = (case xs of [] \<Rightarrow> Inl (IndexError ''index 0 is out of bounds'') | x # _ \<Rightarrow> Inr x)"

definition last_item :: "'a ndarray \<Rightarrow> error + 'a ndarray" where
  "last_item a =
     (case shape a of
        [] \<Rightarrow> Inl (IndexError ''too many indices for array'')
      | n # s \<Rightarrow> if n = 0 then Inl (IndexError ''index -1 is out of bounds'')
                 else Inr (NdArray s (\<lambda>idx. item a ((n - 1) # idx))))"

definition first_item :: "'a ndarray \<Rightarrow> error + 'a ndarray" where
  "first_item a =
     (case shape a of
        [] \<Rightarrow> Inl (IndexError ''too many indices for array'')
      | n # s \<Rightarrow> if n = 0 then Inl (IndexError ''index 0 is out of bounds'')
                 else Inr (NdArray s (\<lambda>idx. item a (0 # idx))))"

definition lower_nodes :: "'a ndarray \<Rightarrow> error + 'a ndarray" where
  "lower_nodes a =
     (case shape a of
        m # n # s \<Rightarrow> Inr (NdArray (m # (n - 1) # s) (item a))
      | _ \<Rightarrow> Inl (IndexError ''too many indices for array''))"

definition upper_nodes :: "'a ndarray \<Rightarrow> error + 'a ndarray" where
  "upper_nodes a =
     (case shape a of
        m # n # s \<Rightarrow>
          Inr (NdArray (m # (n - 1) # s)
                 (\<lambda>idx. case idx of i # k # r \<Rightarrow> item a (i # Suc k # r) | _ \<Rightarrow> item a idx))
      | _ \<Rightarrow> Inl (IndexError ''too many indices for array''))"

definition diff_axis1 :: "real ndarray \<Rightarrow> error + real ndarray" where
  "diff_axis1 a =
     (case shape a of
        m # n # s \<Rightarrow>
          Inr (NdArray (m # (n - 1) # s)
                 (\<lambda>idx. case idx of i # k # r \<Rightarrow> item a (i # Suc k # r) - item a (i # k # r) | _ \<Rightarrow> 0))
      | _ \<Rightarrow> Inl (ValueError ''axis 1 is out of bounds''))"

definition sum_axis1 :: "complex ndarray \<Rightarrow> error + complex ndarray" where
  "sum_axis1 a =
     (case shape a of
        m # n # s \<Rightarrow>
          Inr (NdArray (m # s)
                 (\<lambda>idx. case idx of i # r \<Rightarrow> (\<Sum>k<n. item a (i # k # r)) | [] \<Rightarrow> 0))
      | _ \<Rightarrow> Inl (ValueError ''axis 1 is out of bounds''))"

text \<open>
  Lines 314 to 341 of the source: \<open>kernel_argument\<close> is the reshaping for
  broadcasting with \<open>delta_omegas\<close>, \<open>exp_omegas\<close> and \<open>x\<close>; \<open>filon_sum\<close> adds \<open>exp_x\<close>
  and the two kernel calls.
\<close>

definition kernel_argument ::
  "real ndarray \<Rightarrow> real list \<Rightarrow> nat \<Rightarrow> error + (real ndarray \<times> complex ndarray \<times> real ndarray)" where
  "kernel_argument times' omegas ndim =
     (let times1 = expand_last times';
          omegas1 = expand_first (array1 omegas);
          omegas2 = (expand_last ^^ (ndim - 2)) omegas1;
          times2 = (expand_last ^^ (ndim - 2)) times1
      in ebind (diff_axis1 omegas2) (\<lambda>delta_omegas.
         ebind (lower_nodes omegas2) (\<lambda>omegas_lo.
         ebind (broadcast2 (\<lambda>w t. exp (\<i> * complex_of_real w * complex_of_real t)) omegas_lo times2)
           (\<lambda>exp_omegas.
         ebind (broadcast2 (*) delta_omegas times2) (\<lambda>x.
           Inr (delta_omegas, exp_omegas, x))))))"

text \<open>The argument of \<open>np.sum\<close> in lines 336 to 341, summed over the frequency axis.\<close>

definition filon_terms ::
  "real ndarray \<Rightarrow> complex ndarray \<Rightarrow> complex ndarray \<Rightarrow> complex ndarray \<Rightarrow> complex ndarray
     \<Rightarrow> complex ndarray \<Rightarrow> complex ndarray \<Rightarrow> complex ndarray \<Rightarrow> complex ndarray
     \<Rightarrow> error + complex ndarray" where
  "filon_terms delta_omegas exp_omegas exp_x func_values func_derivatives
       phi_x psi_x phi_minus_x psi_minus_x =
     ebind (broadcast2 (\<lambda>d e. complex_of_real d * e) delta_omegas exp_omegas) (\<lambda>weight.
     ebind (lower_nodes func_values) (\<lambda>f_lo.
     ebind (broadcast2 (*) f_lo phi_minus_x) (\<lambda>a1.
     ebind (broadcast2 (*) a1 exp_x) (\<lambda>a.
     ebind (upper_nodes func_values) (\<lambda>f_hi.
     ebind (broadcast2 (*) f_hi phi_x) (\<lambda>b.
     ebind (broadcast2 (+) a b) (\<lambda>ab.
     ebind (lower_nodes func_derivatives) (\<lambda>d_lo.
     ebind (broadcast2 (\<lambda>d f. complex_of_real d * f) delta_omegas d_lo) (\<lambda>c1.
     ebind (broadcast2 (*) c1 psi_minus_x) (\<lambda>c2.
     ebind (broadcast2 (*) c2 exp_x) (\<lambda>c.
     ebind (broadcast2 (-) ab c) (\<lambda>abc.
     ebind (upper_nodes func_derivatives) (\<lambda>d_hi.
     ebind (broadcast2 (\<lambda>d f. complex_of_real d * f) delta_omegas d_hi) (\<lambda>d1.
     ebind (broadcast2 (*) d1 psi_x) (\<lambda>d.
     ebind (broadcast2 (+) abc d) (\<lambda>abcd.
     ebind (broadcast2 (*) weight abcd) sum_axis1))))))))))))))))"

definition filon_sum ::
  "real \<Rightarrow> real ndarray \<Rightarrow> real list \<Rightarrow> complex ndarray \<Rightarrow> complex ndarray \<Rightarrow> error + complex ndarray" where
  "filon_sum rel_tolerance times' omegas func_values0 func_derivatives0 =
     (let func_values = expand_first func_values0;
          func_derivatives = expand_first func_derivatives0
      in ebind (kernel_argument times' omegas (length (shape func_values)))
           (\<lambda>(delta_omegas, exp_omegas, x).
         let exp_x = map_array (\<lambda>x. exp (\<i> * complex_of_real x)) x in
         ebind (phi_and_psi rel_tolerance x) (\<lambda>(phi_x, psi_x).
         ebind (phi_and_psi rel_tolerance (map_array uminus x)) (\<lambda>(phi_minus_x, psi_minus_x).
           filon_terms delta_omegas exp_omegas exp_x func_values func_derivatives
             phi_x psi_x phi_minus_x psi_minus_x))))"

definition add_correction ::
  "bool \<Rightarrow> real ndarray \<Rightarrow> error + real \<Rightarrow> error + complex ndarray \<Rightarrow> error + complex ndarray
     \<Rightarrow> bool \<Rightarrow> complex ndarray \<Rightarrow> error + complex ndarray" where
  "add_correction enabled times' omega_end func_value_end func_derivative_end positive_inf result =
     (if enabled
      then ebind omega_end (\<lambda>w. ebind func_value_end (\<lambda>v. ebind func_derivative_end (\<lambda>d.
             ebind (fourier_integral_inf_correction times' w v d positive_inf) (iadd result))))
      else Inr result)"

definition fourier_integral_fixed_sampling_pchip ::
  "pchip_prim \<Rightarrow> real \<Rightarrow> real list \<Rightarrow> real list \<Rightarrow> complex ndarray \<Rightarrow> bool \<Rightarrow> bool
     \<Rightarrow> error + complex ndarray" where
  "fourier_integral_fixed_sampling_pchip pchip_interpolate rel_tolerance times_list frequencies func_values
       pos_inf_correction_term neg_inf_correction_term =
     (let omegas = map (\<lambda>f. 2 * pi * f) frequencies;
          times' = array1 times_list;
          result = NdArray (length times_list # tl (shape func_values)) (\<lambda>_. 0)
      in ebind (complex_pchip pchip_interpolate omegas func_values omegas 1 0) (\<lambda>func_derivatives.
         ebind (add_correction pos_inf_correction_term times' (last_elem omegas)
                  (last_item func_values) (last_item func_derivatives) True result) (\<lambda>result.
         ebind (add_correction neg_inf_correction_term times' (first_elem omegas)
                  (first_item func_values) (first_item func_derivatives) False result) (\<lambda>result.
         ebind (filon_sum rel_tolerance times' omegas func_values func_derivatives) (iadd result)))))"


section \<open>The same code over an explicit store\<close>

text \<open>
  NumPy arrays are mutable objects and the module updates some of them in place
  (\<open>result += ...\<close>, \<open>phi[taylor_mask] += ...\<close>, \<open>jx_to_n *= ...\<close>).  To state which
  objects a call writes, this section embeds \<open>_phi_and_psi\<close> and the integrator once
  more, statement by statement, over a store: a map from addresses to array objects
  together with the next unused address.

  \<^item> The arguments \<open>times\<close>, \<open>frequencies\<close> and \<open>func_values\<close> are addresses:
    \<open>np.asarray\<close> returns its argument when that is an array already, and indexing with
    \<open>np.newaxis\<close>, \<open>[-1]\<close>, \<open>[0]\<close>, \<open>[:, :-1]\<close> and \<open>[:, 1:]\<close> makes views of the same object, so
    the contents are read from the store where a statement uses them.
  \<^item> An array that the module creates and later assigns into (\<open>result\<close>, \<open>phi\<close>, \<open>psi\<close>,
    \<open>jx_to_n\<close>, \<open>abs_x_to_n_plus_1\<close>) is allocated at a new address, and an in-place
    statement replaces the object at the address of its target.
  \<^item> An array that comes out of an expression and that no statement assigns into
    (\<open>omegas\<close>, \<open>func_derivatives\<close>, \<open>delta_omegas\<close>, \<open>exp_omegas\<close>, \<open>x\<close>, \<open>exp_x\<close>) is held as a
    value; \<open>x[mask]\<close> with a boolean mask is a copy.
  \<^item> \<open>pchip_interpolate\<close> is a function of the values it is given.
\<close>

type_synonym addr = nat

datatype obj =
    RealVec (real_vec: "real list")
  | ComplexVec (complex_vec: "complex list")
  | ComplexArr (complex_arr: "complex ndarray")

record store =
  cells :: "addr \<Rightarrow> obj option"
  next_free :: addr

type_synonym 'a prog = "store \<Rightarrow> (error + 'a) \<times> store"

definition sreturn :: "'a \<Rightarrow> 'a prog" where
  "sreturn x s = (Inr x, s)"

definition lift_result :: "error + 'a \<Rightarrow> 'a prog" where
  "lift_result r s = (r, s)"

definition sbind :: "'a prog \<Rightarrow> ('a \<Rightarrow> 'b prog) \<Rightarrow> 'b prog" where
  "sbind m f s = (case m s of (Inl e, s') \<Rightarrow> (Inl e, s') | (Inr x, s') \<Rightarrow> f x s')"

definition alloc :: "obj \<Rightarrow> addr prog" where
  "alloc v s = (Inr (next_free s),
                s\<lparr>cells := (cells s)(next_free s \<mapsto> v), next_free := Suc (next_free s)\<rparr>)"

definition fetch :: "addr \<Rightarrow> obj prog" where
  "fetch a s = (Inr (the (cells s a)), s)"

definition assign :: "addr \<Rightarrow> obj \<Rightarrow> unit prog" where
  "assign a v s = (Inr (), s\<lparr>cells := (cells s)(a \<mapsto> v)\<rparr>)"

text \<open>\<open>a[msk] = vs\<close>, \<open>a[msk] += vs\<close> and \<open>r += a\<close> on the object at an address.\<close>

definition masked_assign :: "addr \<Rightarrow> bool list \<Rightarrow> complex list \<Rightarrow> unit prog" where
  "masked_assign a msk vs =
     sbind (fetch a) (\<lambda>ob.
       let r = complex_arr ob
       in assign a (ComplexArr (unravel (shape r) (place msk (ravel r) vs))))"

definition masked_iadd :: "addr \<Rightarrow> bool list \<Rightarrow> complex list \<Rightarrow> unit prog" where
  "masked_iadd a msk vs =
     sbind (fetch a) (\<lambda>ob.
       let r = complex_arr ob
       in assign a (ComplexArr (unravel (shape r)
            (place msk (ravel r) (map2 (+) (compress msk (ravel r)) vs)))))"

definition iadd_st :: "addr \<Rightarrow> complex ndarray \<Rightarrow> unit prog" where
  "iadd_st r a =
     sbind (fetch r) (\<lambda>ob.
     sbind (lift_result (iadd (complex_arr ob) a)) (\<lambda>v.
       assign r (ComplexArr v)))"

subsection \<open>\<open>_phi_and_psi\<close> over the store\<close>

text \<open>
  The scalars \<open>inv_factorial\<close>, \<open>phi_converged\<close> and \<open>psi_converged\<close> are immutable
  Python values and are passed along; the four arrays are addresses.
\<close>

definition phi_pass_st ::
  "real \<Rightarrow> bool list \<Rightarrow> real list \<Rightarrow> addr \<Rightarrow> addr \<Rightarrow> addr \<Rightarrow> nat \<Rightarrow> real \<Rightarrow> bool prog" where
  "phi_pass_st rel_tolerance taylor_mask xx phi_ref jx_ref abs_ref n inv_fact =
     sbind (fetch jx_ref) (\<lambda>jx.
     sbind (masked_iadd phi_ref taylor_mask
              (map (\<lambda>j. complex_of_real (real (n + 6) / real ((n + 3) * (n + 4))) * j
                         * complex_of_real inv_fact) (complex_vec jx))) (\<lambda>_.
     sbind (fetch phi_ref) (\<lambda>p.
     sbind (fetch abs_ref) (\<lambda>ab.
       let min_phi_component = min_component (compress taylor_mask (ravel (complex_arr p)));
           phi_remaining_terms_bound =
             map2 (\<lambda>a x. 2 * a * exp \<bar>x\<bar> * inv_fact / real ((n + 1) * (n + 5))) (real_vec ab) xx
       in sreturn (list_all id
            (map2 (\<lambda>b m. b < rel_tolerance * m) phi_remaining_terms_bound min_phi_component))))))"

definition psi_pass_st ::
  "real \<Rightarrow> bool list \<Rightarrow> real list \<Rightarrow> addr \<Rightarrow> addr \<Rightarrow> addr \<Rightarrow> nat \<Rightarrow> real \<Rightarrow> bool prog" where
  "psi_pass_st rel_tolerance taylor_mask xx psi_ref jx_ref abs_ref n inv_fact =
     sbind (fetch jx_ref) (\<lambda>jx.
     sbind (masked_iadd psi_ref taylor_mask
              (map (\<lambda>j. complex_of_real (- 1 / real ((n + 3) * (n + 4))) * j
                         * complex_of_real inv_fact) (complex_vec jx))) (\<lambda>_.
     sbind (fetch psi_ref) (\<lambda>p.
     sbind (fetch abs_ref) (\<lambda>ab.
       let min_psi_component = min_component (compress taylor_mask (ravel (complex_arr p)));
           psi_remaining_terms_bound =
             map2 (\<lambda>a x. a * exp \<bar>x\<bar> * inv_fact / real ((n + 1) * (n + 4) * (n + 5))) (real_vec ab) xx
       in sreturn (list_all id
            (map2 (\<lambda>b m. b < rel_tolerance * m) psi_remaining_terms_bound min_psi_component))))))"

definition kernel_update_st :: "real list \<Rightarrow> addr \<Rightarrow> addr \<Rightarrow> nat \<Rightarrow> real \<Rightarrow> real prog" where
  "kernel_update_st xx jx_ref abs_ref n inv_fact =
     sbind (fetch jx_ref) (\<lambda>jx.
     sbind (assign jx_ref
              (ComplexVec (map2 (\<lambda>j x. j * (\<i> * complex_of_real x)) (complex_vec jx) xx))) (\<lambda>_.
     sbind (fetch abs_ref) (\<lambda>ab.
     sbind (assign abs_ref (RealVec (map2 (\<lambda>a x. a * \<bar>x\<bar>) (real_vec ab) xx))) (\<lambda>_.
       sreturn (inv_fact / real (n + 1))))))"

definition kernel_pass_st ::
  "real \<Rightarrow> bool list \<Rightarrow> real list \<Rightarrow> addr \<Rightarrow> addr \<Rightarrow> addr \<Rightarrow> addr \<Rightarrow> nat
     \<Rightarrow> real \<Rightarrow> bool \<Rightarrow> bool \<Rightarrow> (real \<times> bool \<times> bool) prog" where
  "kernel_pass_st rel_tolerance taylor_mask xx phi_ref psi_ref jx_ref abs_ref n inv_fact phi_conv psi_conv =
     sbind (if \<not> phi_conv
            then phi_pass_st rel_tolerance taylor_mask xx phi_ref jx_ref abs_ref n inv_fact
            else sreturn phi_conv) (\<lambda>phi_conv1.
     sbind (if \<not> psi_conv
            then psi_pass_st rel_tolerance taylor_mask xx psi_ref jx_ref abs_ref n inv_fact
            else sreturn psi_conv) (\<lambda>psi_conv1.
     sbind (kernel_update_st xx jx_ref abs_ref n inv_fact) (\<lambda>inv_fact1.
       sreturn (inv_fact1, phi_conv1, psi_conv1))))"

fun kernel_loop_st ::
  "real \<Rightarrow> bool list \<Rightarrow> real list \<Rightarrow> addr \<Rightarrow> addr \<Rightarrow> addr \<Rightarrow> addr \<Rightarrow> nat list
     \<Rightarrow> real \<Rightarrow> bool \<Rightarrow> bool \<Rightarrow> (real \<times> bool \<times> bool) prog" where
  "kernel_loop_st rel_tolerance taylor_mask xx phi_ref psi_ref jx_ref abs_ref [] inv_fact phi_conv psi_conv s =
     (Inr (inv_fact, phi_conv, psi_conv), s)"
| "kernel_loop_st rel_tolerance taylor_mask xx phi_ref psi_ref jx_ref abs_ref (n # ns) inv_fact phi_conv psi_conv s =
     (if phi_conv \<and> psi_conv then (Inr (inv_fact, phi_conv, psi_conv), s)
      else (case kernel_pass_st rel_tolerance taylor_mask xx phi_ref psi_ref jx_ref abs_ref n
                   inv_fact phi_conv psi_conv s of
              (Inl e, s') \<Rightarrow> (Inl e, s')
            | (Inr (inv_fact1, phi_conv1, psi_conv1), s') \<Rightarrow>
                kernel_loop_st rel_tolerance taylor_mask xx phi_ref psi_ref jx_ref abs_ref ns
                  inv_fact1 phi_conv1 psi_conv1 s'))"

definition phi_and_psi_st :: "real \<Rightarrow> real ndarray \<Rightarrow> (addr \<times> addr) prog" where
  "phi_and_psi_st rel_tolerance x =
     (let xs = ravel x;
          zeros = ComplexArr (unravel (shape x) (map (\<lambda>_. 0) xs));
          taylor_mask = map (\<lambda>x. \<bar>x\<bar> < 1) xs;
          not_mask = map Not taylor_mask
      in sbind (alloc zeros) (\<lambda>phi_ref.
         sbind (alloc zeros) (\<lambda>psi_ref.
         sbind (masked_assign phi_ref not_mask (map phi_closed (compress not_mask xs))) (\<lambda>_.
         sbind (masked_assign psi_ref not_mask (map psi_closed (compress not_mask xs))) (\<lambda>_.
         let xx = compress taylor_mask xs in
         sbind (alloc (ComplexVec (map (\<lambda>_. 1) xx))) (\<lambda>jx_ref.
         sbind (alloc (RealVec (map abs xx))) (\<lambda>abs_ref.
         sbind (kernel_loop_st rel_tolerance taylor_mask xx phi_ref psi_ref jx_ref abs_ref
                  [0..<MAX_TAYLOR_ITERATIONS + 1] 1 False False) (\<lambda>(inv_fact, phi_conv, psi_conv).
           if \<not> (phi_conv \<and> psi_conv)
           then lift_result (Inl (RuntimeError
                  ''Phi and Psi calculation failed to converge after 1000 iterations''))
           else sreturn (phi_ref, psi_ref)))))))))"

subsection \<open>The integrator over the store\<close>

definition add_correction_st ::
  "bool \<Rightarrow> addr \<Rightarrow> error + real \<Rightarrow> (complex ndarray \<Rightarrow> error + complex ndarray) \<Rightarrow> addr
     \<Rightarrow> error + complex ndarray \<Rightarrow> bool \<Rightarrow> addr \<Rightarrow> unit prog" where
  "add_correction_st enabled times_ref omega_end end_item func_values_ref func_derivative_end
       positive_inf result_ref =
     (if enabled
      then sbind (fetch times_ref) (\<lambda>t.
           sbind (fetch func_values_ref) (\<lambda>fv.
           sbind (lift_result
                    (ebind omega_end (\<lambda>w. ebind (end_item (complex_arr fv)) (\<lambda>v.
                     ebind func_derivative_end (\<lambda>d.
                       fourier_integral_inf_correction (array1 (real_vec t)) w v d positive_inf)))))
             (iadd_st result_ref)))
      else sreturn ())"

definition filon_sum_st ::
  "real \<Rightarrow> addr \<Rightarrow> real list \<Rightarrow> addr \<Rightarrow> complex ndarray \<Rightarrow> complex ndarray prog" where
  "filon_sum_st rel_tolerance times_ref omegas func_values_ref func_derivatives0 =
     sbind (fetch times_ref) (\<lambda>t.
     sbind (fetch func_values_ref) (\<lambda>fv.
     sbind (lift_result (kernel_argument (array1 (real_vec t)) omegas
                           (length (shape (expand_first (complex_arr fv))))))
       (\<lambda>(delta_omegas, exp_omegas, x).
     let exp_x = map_array (\<lambda>x. exp (\<i> * complex_of_real x)) x in
     sbind (phi_and_psi_st rel_tolerance x) (\<lambda>(phi_x, psi_x).
     sbind (phi_and_psi_st rel_tolerance (map_array uminus x)) (\<lambda>(phi_minus_x, psi_minus_x).
     sbind (fetch func_values_ref) (\<lambda>fv1.
     sbind (fetch phi_minus_x) (\<lambda>pm.
     sbind (fetch phi_x) (\<lambda>p.
     sbind (fetch psi_minus_x) (\<lambda>qm.
     sbind (fetch psi_x) (\<lambda>q.
       lift_result
         (filon_terms delta_omegas exp_omegas exp_x (expand_first (complex_arr fv1))
            (expand_first func_derivatives0)
            (complex_arr p) (complex_arr q) (complex_arr pm) (complex_arr qm))))))))))))"

definition fourier_integral_st ::
  "pchip_prim \<Rightarrow> real \<Rightarrow> addr \<Rightarrow> addr \<Rightarrow> addr \<Rightarrow> bool \<Rightarrow> bool \<Rightarrow> addr prog" where
  "fourier_integral_st pchip_interpolate rel_tolerance times_ref frequencies_ref func_values_ref
       pos_inf_correction_term neg_inf_correction_term =
     sbind (fetch frequencies_ref) (\<lambda>fr.
     let omegas = map (\<lambda>f. 2 * pi * f) (real_vec fr) in
     sbind (fetch times_ref) (\<lambda>t.
     sbind (fetch func_values_ref) (\<lambda>fv.
     sbind (alloc (ComplexArr (NdArray (length (real_vec t) # tl (shape (complex_arr fv))) (\<lambda>_. 0))))
       (\<lambda>result_ref.
     sbind (fetch func_values_ref) (\<lambda>fv1.
     sbind (lift_result (complex_pchip pchip_interpolate omegas (complex_arr fv1) omegas 1 0))
       (\<lambda>func_derivatives.
     sbind (add_correction_st pos_inf_correction_term times_ref (last_elem omegas) last_item
              func_values_ref (last_item func_derivatives) True result_ref) (\<lambda>_.
     sbind (add_correction_st neg_inf_correction_term times_ref (first_elem omegas) first_item
              func_values_ref (first_item func_derivatives) False result_ref) (\<lambda>_.
     sbind (filon_sum_st rel_tolerance times_ref omegas func_values_ref func_derivatives) (\<lambda>terms.
     sbind (iadd_st result_ref terms) (\<lambda>_.
       sreturn result_ref))))))))))"

section \<open>Definitions used in the statements and proofs\<close>

text \<open>
  The loop invariant behind the behaviour at \<open>x = 0\<close>: at position \<open>j\<close> of the Taylor
  subset the remaining-term bound is 0, the accumulated imaginary part is 0, and Phi has
  not converged.
\<close>

definition stuck_at :: "bool list \<Rightarrow> real list \<Rightarrow> nat \<Rightarrow> kernel_vars \<Rightarrow> bool" where
  "stuck_at m xx j st \<longleftrightarrow>
     length (phi st) = length m \<and> length (jx_to_n st) = length xx \<and>
     length (abs_x_to_n_plus_1 st) = length xx \<and>
     abs_x_to_n_plus_1 st ! j = 0 \<and> Im (jx_to_n st ! j) = 0 \<and>
     Im (compress m (phi st) ! j) = 0 \<and> \<not> phi_converged st"

text \<open>The multi-indices inside a shape.\<close>

definition valid_index :: "nat list \<Rightarrow> nat list \<Rightarrow> bool" where
  "valid_index s idx = list_all2 (<) idx s"

text \<open>
  \<open>represents a flags dims g\<close>: the array \<open>a\<close> stands for the function \<open>g\<close> on the index
  space \<open>dims\<close>, stored with length 1 along every flagged axis (the axes NumPy will
  stretch).  Broadcasting two such arrays is then pointwise application.
\<close>

definition stored_dim :: "bool \<Rightarrow> nat \<Rightarrow> nat" where
  "stored_dim b n = (if b then 1 else n)"

definition stored_idx :: "bool \<Rightarrow> nat \<Rightarrow> nat" where
  "stored_idx b i = (if b then 0 else i)"

definition represents :: "'a ndarray \<Rightarrow> bool list \<Rightarrow> nat list \<Rightarrow> (nat list \<Rightarrow> 'a) \<Rightarrow> bool" where
  "represents a flags dims g \<longleftrightarrow>
     length flags = length dims \<and> shape a = map2 stored_dim flags dims \<and>
     (\<forall>idx. valid_index dims idx \<longrightarrow> item a (map2 stored_idx flags idx) = g idx)"

text \<open>
  The contribution of one sub-interval in the words of the specification (section 4.4,
  step 6), with \<open>x = \<Delta>\<omega> * t\<close>.
\<close>

definition spec_sub_interval ::
  "real \<Rightarrow> real \<Rightarrow> real \<Rightarrow> complex \<Rightarrow> complex \<Rightarrow> complex \<Rightarrow> complex
     \<Rightarrow> complex \<Rightarrow> complex \<Rightarrow> complex \<Rightarrow> complex \<Rightarrow> complex" where
  "spec_sub_interval delta_omega omega t f_lo f_hi d_lo d_hi phi_minus phi_plus psi_minus psi_plus =
     (let x = delta_omega * t
      in complex_of_real delta_omega * exp (\<i> * complex_of_real omega * complex_of_real t)
         * (f_lo * phi_minus * exp (\<i> * complex_of_real x) + f_hi * phi_plus
            - complex_of_real delta_omega * d_lo * psi_minus * exp (\<i> * complex_of_real x)
            + complex_of_real delta_omega * d_hi * psi_plus))"

text \<open>
  A concrete interpolation primitive for the witnesses: the derivative at a node is the
  difference quotient of the sub-interval to its right (to its left at the last node).
\<close>

definition secant_prim :: pchip_prim where
  "secant_prim xi yi x derivative_order axis =
     Inr (NdArray (shape yi)
            (\<lambda>idx. let j = min (hd idx) (length xi - 2)
                   in (item yi (Suc j # tl idx) - item yi (j # tl idx)) / (xi ! Suc j - xi ! j)))"

text \<open>
  The Taylor branch in closed form: the term added in pass \<open>n\<close>, the partial sums, the
  remaining-term bounds, and the convergence test of pass \<open>n\<close> on the Taylor subset.
\<close>

definition phi_term :: "nat \<Rightarrow> real \<Rightarrow> complex" where
  "phi_term n x = complex_of_real (real (n + 6) / real ((n + 3) * (n + 4)))
                    * (\<i> * complex_of_real x) ^ n * complex_of_real (1 / fact n)"

definition psi_term :: "nat \<Rightarrow> real \<Rightarrow> complex" where
  "psi_term n x = complex_of_real (- 1 / real ((n + 3) * (n + 4)))
                    * (\<i> * complex_of_real x) ^ n * complex_of_real (1 / fact n)"

definition phi_partial :: "nat \<Rightarrow> real \<Rightarrow> complex" where
  "phi_partial n x = (\<Sum>k<n. phi_term k x)"

definition psi_partial :: "nat \<Rightarrow> real \<Rightarrow> complex" where
  "psi_partial n x = (\<Sum>k<n. psi_term k x)"

definition phi_bound :: "nat \<Rightarrow> real \<Rightarrow> real" where
  "phi_bound n x = 2 * \<bar>x\<bar> ^ Suc n * exp \<bar>x\<bar> * (1 / fact n) / real ((n + 1) * (n + 5))"

definition psi_bound :: "nat \<Rightarrow> real \<Rightarrow> real" where
  "psi_bound n x = \<bar>x\<bar> ^ Suc n * exp \<bar>x\<bar> * (1 / fact n) / real ((n + 1) * (n + 4) * (n + 5))"

definition phi_meets :: "real \<Rightarrow> real list \<Rightarrow> nat \<Rightarrow> bool" where
  "phi_meets rel_tolerance xx n =
     list_all (\<lambda>x. phi_bound n x
                    < rel_tolerance * min \<bar>Re (phi_partial (Suc n) x)\<bar> \<bar>Im (phi_partial (Suc n) x)\<bar>) xx"

definition psi_meets :: "real \<Rightarrow> real list \<Rightarrow> nat \<Rightarrow> bool" where
  "psi_meets rel_tolerance xx n =
     list_all (\<lambda>x. psi_bound n x
                    < rel_tolerance * min \<bar>Re (psi_partial (Suc n) x)\<bar> \<bar>Im (psi_partial (Suc n) x)\<bar>) xx"

text \<open>The number of terms a kernel has received after the passes \<open>0, ..., n - 1\<close>.\<close>

definition taylor_count :: "(nat \<Rightarrow> bool) \<Rightarrow> nat \<Rightarrow> nat" where
  "taylor_count meets n = (case find meets [0..<n] of Some k \<Rightarrow> Suc k | None \<Rightarrow> n)"

text \<open>
  Loop invariants at the start of pass \<open>n\<close>: the running powers and inverse factorial,
  and for each kernel its flag, its Taylor elements (a partial sum) and its closed-form
  elements (untouched).
\<close>

definition common_inv :: "real list \<Rightarrow> nat \<Rightarrow> kernel_vars \<Rightarrow> bool" where
  "common_inv xx n st \<longleftrightarrow>
     jx_to_n st = map (\<lambda>x. (\<i> * complex_of_real x) ^ n) xx \<and>
     abs_x_to_n_plus_1 st = map (\<lambda>x. \<bar>x\<bar> ^ Suc n) xx \<and>
     inv_factorial st = 1 / fact n"

definition phi_inv :: "real \<Rightarrow> bool list \<Rightarrow> real list \<Rightarrow> complex list \<Rightarrow> nat \<Rightarrow> kernel_vars \<Rightarrow> bool" where
  "phi_inv eps m xx cphi n st \<longleftrightarrow>
     length (phi st) = length m \<and>
     (phi_converged st \<longleftrightarrow> (\<exists>k<n. phi_meets eps xx k)) \<and>
     compress m (phi st) = map (phi_partial (taylor_count (phi_meets eps xx) n)) xx \<and>
     compress (map Not m) (phi st) = cphi"

definition psi_inv :: "real \<Rightarrow> bool list \<Rightarrow> real list \<Rightarrow> complex list \<Rightarrow> nat \<Rightarrow> kernel_vars \<Rightarrow> bool" where
  "psi_inv eps m xx cpsi n st \<longleftrightarrow>
     length (psi st) = length m \<and>
     (psi_converged st \<longleftrightarrow> (\<exists>k<n. psi_meets eps xx k)) \<and>
     compress m (psi st) = map (psi_partial (taylor_count (psi_meets eps xx) n)) xx \<and>
     compress (map Not m) (psi st) = cpsi"

definition lambda_term :: "nat \<Rightarrow> real \<Rightarrow> complex" where
  "lambda_term n x = complex_of_real (1 / real (n + 2)) * (\<i> * complex_of_real x) ^ n
                       * complex_of_real (1 / fact n)"

definition lambda_partial :: "nat \<Rightarrow> real \<Rightarrow> complex" where
  "lambda_partial n x = (\<Sum>k<n. lambda_term k x)"

definition lambda_bound :: "nat \<Rightarrow> real \<Rightarrow> real" where
  "lambda_bound n x = \<bar>x\<bar> ^ Suc n * exp \<bar>x\<bar> * (1 / fact n) * 1 / real ((n + 3) * (n + 1))"

definition lambda_meets :: "real \<Rightarrow> real \<Rightarrow> nat \<Rightarrow> bool" where
  "lambda_meets rel_tolerance x n \<longleftrightarrow>
     lambda_bound n x
       < rel_tolerance * min \<bar>Re (lambda_partial (Suc n) x)\<bar> \<bar>Im (lambda_partial (Suc n) x)\<bar>"

definition lambda_inv :: "bool list \<Rightarrow> real list \<Rightarrow> complex list \<Rightarrow> nat \<Rightarrow> lambda_vars \<Rightarrow> bool" where
  "lambda_inv m xx c n st \<longleftrightarrow>
     length (lam_result st) = length m \<and>
     lam_jx_to_n st = map (\<lambda>x. (\<i> * complex_of_real x) ^ n) xx \<and>
     lam_abs_x_to_n_plus_1 st = map (\<lambda>x. \<bar>x\<bar> ^ Suc n) xx \<and>
     lam_inv_factorial st = 1 / fact n \<and>
     compress m (lam_result st) = map (lambda_partial n) xx \<and>
     compress (map Not m) (lam_result st) = c"

text \<open>The four arrays of the loop of \<open>_phi_and_psi\<close> in the store hold the fields of the
  loop state of the embedding without a store.\<close>

definition kernel_rel ::
  "nat list \<Rightarrow> addr \<Rightarrow> addr \<Rightarrow> addr \<Rightarrow> addr \<Rightarrow> kernel_vars \<Rightarrow> store \<Rightarrow> bool" where
  "kernel_rel sh phi_ref psi_ref jx_ref abs_ref st s \<longleftrightarrow>
     cells s phi_ref = Some (ComplexArr (unravel sh (phi st))) \<and>
     cells s psi_ref = Some (ComplexArr (unravel sh (psi st))) \<and>
     cells s jx_ref = Some (ComplexVec (jx_to_n st)) \<and>
     cells s abs_ref = Some (RealVec (abs_x_to_n_plus_1 st)) \<and>
     length (phi st) = prod_list sh \<and> length (psi st) = prod_list sh"

text \<open>The second store differs from the first at most at the addresses of \<open>W\<close>.\<close>

definition touches_only :: "addr set \<Rightarrow> store \<Rightarrow> store \<Rightarrow> bool" where
  "touches_only W s s' \<longleftrightarrow>
     next_free s' = next_free s \<and> (\<forall>b. b \<notin> W \<longrightarrow> cells s' b = cells s b)"

text \<open>Every object of the first store is in the second, unchanged.\<close>

definition extends :: "store \<Rightarrow> store \<Rightarrow> bool" where
  "extends s s' \<longleftrightarrow>
     next_free s \<le> next_free s' \<and> (\<forall>b. b < next_free s \<longrightarrow> cells s' b = cells s b)"

section \<open>Lemmas\<close>

subsection \<open>Boolean masks\<close>

lemma compress_map_filter: "compress (map P xs) xs = filter P xs"
  unfolding compress_def by (induction xs) auto

lemma length_compress: "length m = length xs \<Longrightarrow> length (compress m xs) = length (filter id m)"
  unfolding compress_def by (induction m xs rule: list_induct2) auto

lemma length_place [simp]: "length (place m r vs) = length r"
  by (induction m r vs rule: place.induct) (auto split: list.splits)

lemma compress_place:
  "length r = length m \<Longrightarrow> length vs = length (filter id m) \<Longrightarrow> compress m (place m r vs) = vs"
proof (induction m r vs rule: place.induct)
  case (1 b bs r rs vs)
  then show ?case by (cases vs) (auto simp: compress_def)
qed (auto simp: compress_def)

lemma compress_place_other:
  "length r = length m \<Longrightarrow> compress m (place (map Not m) r vs) = compress m r"
proof (induction m arbitrary: r vs)
  case Nil then show ?case by (simp add: compress_def)
next
  case (Cons b bs)
  then obtain r0 rs where r: "r = r0 # rs" by (cases r) auto
  with Cons show ?case by (cases vs) (auto simp: compress_def)
qed

lemma compress_place_not:
  "length r = length m \<Longrightarrow> compress (map Not m) (place m r vs) = compress (map Not m) r"
  using compress_place_other[of r "map Not m" vs] by (simp add: comp_def)

subsection \<open>\<open>_lambda\<close> on a Taylor subset of no or of several elements\<close>

lemma lambda_check_empty [simp]: "lambda_check eps m [] n st = []"
  by (simp add: lambda_check_def Let_def)

lemma lambda_loop_no_taylor:
  "\<exists>st'. lambda_loop Legacy eps m [] ns k st = Inr (last (k # ns), st')"
  by (induction ns arbitrary: k st) (auto simp: ebind_def Let_def)

lemma last_range: "last (0 # [0..<MAX_TAYLOR_ITERATIONS + 1]) = MAX_TAYLOR_ITERATIONS"
  by simp

lemma lambda_flat_no_taylor_legacy:
  assumes "filter (\<lambda>x. \<bar>x\<bar> < 1) x = []"
  shows "lambda_flat Legacy eps x = Inl (RuntimeError ''Lambda calculation failed to converge after 1000 iterations'')"
proof -
  have xx: "compress (map (\<lambda>x. \<bar>x\<bar> < 1) x) x = []"
    using assms by (simp add: compress_map_filter)
  obtain st' where
    "lambda_loop Legacy eps (map (\<lambda>x. \<bar>x\<bar> < 1) x) [] [0..<MAX_TAYLOR_ITERATIONS + 1] 0
       \<lparr>lam_result = place (map Not (map (\<lambda>x. \<bar>x\<bar> < 1) x)) (map (\<lambda>_. 0) x)
                        (map lambda_closed (compress (map Not (map (\<lambda>x. \<bar>x\<bar> < 1) x)) x)),
         lam_jx_to_n = map (\<lambda>_. 1) [], lam_abs_x_to_n_plus_1 = map abs [], lam_inv_factorial = 1\<rparr>
     = Inr (MAX_TAYLOR_ITERATIONS, st')"
    using lambda_loop_no_taylor last_range by metis
  then show ?thesis
    unfolding lambda_flat_def Let_def xx by (simp add: ebind_def)
qed

lemma upt_max: "[0..<MAX_TAYLOR_ITERATIONS + 1] = 0 # [1..<MAX_TAYLOR_ITERATIONS + 1]"
  using upt_conv_Cons[of 0 "MAX_TAYLOR_ITERATIONS + 1"] by simp

lemma lambda_flat_no_taylor_strict:
  assumes "filter (\<lambda>x. \<bar>x\<bar> < 1) x = []"
  shows "lambda_flat Strict eps x = Inl (ValueError ''The truth value of an empty array is ambiguous'')"
proof -
  have xx: "compress (map (\<lambda>x. \<bar>x\<bar> < 1) x) x = []"
    using assms by (simp add: compress_map_filter)
  show ?thesis
    unfolding lambda_flat_def Let_def xx upt_max
    by (simp add: ebind_def)
qed

lemma length_lambda_check:
  "length (lam_result st) = length m \<Longrightarrow> length (lam_abs_x_to_n_plus_1 st) = length xx \<Longrightarrow>
   length (filter id m) = length xx \<Longrightarrow>
   length (lambda_check eps m xx n st) = length xx"
  by (simp add: lambda_check_def Let_def length_compress)

lemma array_truth_many:
  "2 \<le> length bs \<Longrightarrow> array_truth rules bs =
     Inl (ValueError ''The truth value of an array with more than one element is ambiguous'')"
  by (cases "(rules, bs)" rule: array_truth.cases) auto

lemma lambda_flat_many_taylor:
  assumes "2 \<le> length (filter (\<lambda>x. \<bar>x\<bar> < 1) x)"
  shows "lambda_flat rules eps x =
     Inl (ValueError ''The truth value of an array with more than one element is ambiguous'')"
proof -
  let ?m = "map (\<lambda>x. \<bar>x\<bar> < 1) x"
  have xx: "compress ?m x = filter (\<lambda>x. \<bar>x\<bar> < 1) x"
    by (simp add: compress_map_filter)
  have cnt: "length (filter id ?m) = length (filter (\<lambda>x. \<bar>x\<bar> < 1) x)"
    by (simp add: filter_map comp_def)
  have "length (lambda_check eps ?m (filter (\<lambda>x. \<bar>x\<bar> < 1) x) 0
          (lambda_add_term ?m 0 \<lparr>lam_result = place (map Not ?m) (map (\<lambda>_. 0) x) (map lambda_closed (compress (map Not ?m) x)),
                 lam_jx_to_n = map (\<lambda>_. 1) (filter (\<lambda>x. \<bar>x\<bar> < 1) x),
                 lam_abs_x_to_n_plus_1 = map abs (filter (\<lambda>x. \<bar>x\<bar> < 1) x),
                 lam_inv_factorial = 1\<rparr>)) = length (filter (\<lambda>x. \<bar>x\<bar> < 1) x)"
    by (rule length_lambda_check) (simp_all add: lambda_add_term_def cnt)
  with assms show ?thesis
    unfolding lambda_flat_def Let_def xx upt_max
    by (simp add: ebind_def array_truth_many)
qed

subsection \<open>A zero element never converges\<close>

lemma not_list_all_nth: "j < length bs \<Longrightarrow> \<not> bs ! j \<Longrightarrow> \<not> list_all id bs"
  by (auto simp: list_all_length)

lemma phi_pass_stuck:
  assumes cnt: "length (filter id m) = length xx" and j: "j < length xx" and x0: "xx ! j = 0"
    and st: "stuck_at m xx j st"
  shows "stuck_at m xx j (phi_pass eps m xx n st)"
proof -
  define terms where "terms = map (\<lambda>j. complex_of_real (real (n + 6) / real ((n + 3) * (n + 4))) * j
                     * complex_of_real (inv_factorial st)) (jx_to_n st)"
  define new where "new = map2 (+) (compress m (phi st)) terms"
  define bound where "bound = map2 (\<lambda>a x. 2 * a * exp \<bar>x\<bar> * inv_factorial st / real ((n + 1) * (n + 5)))
              (abs_x_to_n_plus_1 st) xx"
  define cmp where "cmp = map2 (\<lambda>b m. b < eps * m) bound (min_component (compress m (place m (phi st) new)))"
  have pp: "phi_pass eps m xx n st = st\<lparr>phi := place m (phi st) new, phi_converged := list_all id cmp\<rparr>"
    unfolding phi_pass_def Let_def cmp_def bound_def new_def terms_def ..
  from st have len: "length (phi st) = length m" "length (jx_to_n st) = length xx"
      "length (abs_x_to_n_plus_1 st) = length xx"
    and a0: "abs_x_to_n_plus_1 st ! j = 0" and jx: "Im (jx_to_n st ! j) = 0"
    and im: "Im (compress m (phi st) ! j) = 0"
    by (auto simp: stuck_at_def)
  have lc: "length (compress m (phi st)) = length xx"
    using len cnt by (simp add: length_compress)
  have lt: "length terms = length xx" using len by (simp add: terms_def)
  have lnew: "length new = length xx" using lc lt by (simp add: new_def)
  have c1: "compress m (place m (phi st) new) = new"
    by (rule compress_place) (use len lnew cnt in simp_all)
  have "Im (terms ! j) = 0" using j len jx by (simp add: terms_def)
  then have imnew: "Im (new ! j) = 0"
    using j lc lt im by (simp add: new_def)
  have lb: "length bound = length xx" using len by (simp add: bound_def)
  have b0: "bound ! j = 0" using j len a0 by (simp add: bound_def)
  have "j < length cmp" using j lb lnew by (simp add: cmp_def c1 min_component_def)
  moreover have "\<not> cmp ! j"
    using j lb lnew b0 imnew by (simp add: cmp_def c1 min_component_def)
  ultimately have "\<not> list_all id cmp" by (rule not_list_all_nth)
  then show ?thesis
    using len a0 jx imnew
    unfolding stuck_at_def pp by (simp add: c1)
qed

lemma psi_pass_stuck: "stuck_at m xx j st \<Longrightarrow> stuck_at m xx j (psi_pass eps m xx n st)"
  by (simp add: stuck_at_def psi_pass_def Let_def)

lemma kernel_update_stuck:
  assumes j: "j < length xx" and x0: "xx ! j = 0" and st: "stuck_at m xx j st"
  shows "stuck_at m xx j (kernel_update xx n st)"
  using assms by (simp add: stuck_at_def kernel_update_def)

lemma kernel_pass_stuck:
  assumes "length (filter id m) = length xx" "j < length xx" "xx ! j = 0" "stuck_at m xx j st"
  shows "stuck_at m xx j (kernel_pass eps m xx n st)"
proof -
  have 1: "stuck_at m xx j (phi_pass eps m xx n st)" using assms by (rule phi_pass_stuck)
  have np: "\<not> phi_converged st" using assms(4) by (simp add: stuck_at_def)
  show ?thesis
    unfolding kernel_pass_def Let_def
    using np 1 psi_pass_stuck[OF 1] kernel_update_stuck[OF assms(2,3)] by simp
qed

lemma kernel_loop_stuck:
  assumes "length (filter id m) = length xx" "j < length xx" "xx ! j = 0"
  shows "stuck_at m xx j st \<Longrightarrow> stuck_at m xx j (kernel_loop eps m xx ns st)"
proof (induction ns arbitrary: st)
  case Nil then show ?case by simp
next
  case (Cons n ns)
  then show ?case using kernel_pass_stuck[OF assms] by simp
qed

lemma phi_and_psi_flat_zero:
  assumes "0 \<in> set x"
  shows "phi_and_psi_flat eps x =
    Inl (RuntimeError ''Phi and Psi calculation failed to converge after 1000 iterations'')"
proof -
  let ?m = "map (\<lambda>x. \<bar>x\<bar> < 1) x"
  let ?xx = "filter (\<lambda>x. \<bar>x\<bar> < 1) x"
  have xx: "compress ?m x = ?xx" by (simp add: compress_map_filter)
  have cnt: "length (filter id ?m) = length ?xx" by (simp add: filter_map comp_def)
  from assms have "0 \<in> set ?xx" by simp
  then obtain j where j: "j < length ?xx" and x0: "?xx ! j = 0"
    by (metis in_set_conv_nth)
  let ?phi0 = "place (map Not ?m) (map (\<lambda>_. 0) x) (map phi_closed (compress (map Not ?m) x))"
  let ?psi0 = "place (map Not ?m) (map (\<lambda>_. 0) x) (map psi_closed (compress (map Not ?m) x))"
  let ?st0 = "\<lparr>phi = ?phi0, psi = ?psi0, jx_to_n = map (\<lambda>_. 1) ?xx,
                 abs_x_to_n_plus_1 = map abs ?xx, inv_factorial = 1,
                 phi_converged = False, psi_converged = False\<rparr>"
  have c0: "compress ?m ?phi0 = compress ?m (map (\<lambda>_. 0) x)"
    by (rule compress_place_other) simp
  have lz: "length (compress ?m (map (\<lambda>_. 0::complex) x)) = length ?xx"
    using cnt by (simp add: length_compress)
  have z: "compress ?m (map (\<lambda>_. 0::complex) x) ! j = 0"
  proof -
    have "compress ?m (map (\<lambda>_. 0::complex) x) ! j \<in> set (compress ?m (map (\<lambda>_. 0::complex) x))"
      using j lz by (intro nth_mem) simp
    also have "\<dots> \<subseteq> set (map (\<lambda>_. 0::complex) x)"
      by (auto simp: compress_def dest: set_zip_rightD)
    finally show ?thesis by auto
  qed
  have imz: "Im (compress ?m ?phi0 ! j) = 0" unfolding c0 z by simp
  have "stuck_at ?m ?xx j ?st0"
    unfolding stuck_at_def using j x0 imz by simp
  then have "stuck_at ?m ?xx j (kernel_loop eps ?m ?xx [0..<MAX_TAYLOR_ITERATIONS + 1] ?st0)"
    by (rule kernel_loop_stuck[OF cnt j x0])
  then have "\<not> phi_converged (kernel_loop eps ?m ?xx [0..<MAX_TAYLOR_ITERATIONS + 1] ?st0)"
    by (simp add: stuck_at_def)
  then show ?thesis
    unfolding phi_and_psi_flat_def phi_and_psi_outcome_def Let_def xx by simp
qed

subsection \<open>Arrays that store a function of the index\<close>

lemma valid_index_length: "valid_index s idx \<Longrightarrow> length idx = length s"
  by (simp add: valid_index_def list_all2_lengthD)

lemma valid_index_Cons [simp]: "valid_index (n # s) (i # idx) \<longleftrightarrow> i < n \<and> valid_index s idx"
  by (simp add: valid_index_def)

lemma valid_index_Nil [simp]: "valid_index [] idx \<longleftrightarrow> idx = []"
  by (simp add: valid_index_def)

lemma valid_index_Cons_iff: "valid_index (n # s) idx \<longleftrightarrow> (\<exists>i r. idx = i # r \<and> i < n \<and> valid_index s r)"
  by (cases idx) (auto simp: valid_index_def)

lemma pad_shape_same [simp]: "length s \<le> k \<Longrightarrow> length s = k \<Longrightarrow> pad_shape k s = s"
  by (simp add: pad_shape_def)

lemma broadcast_shapes_same_rank:
  "length s = length t \<Longrightarrow>
   broadcast_shapes s t = (if list_all2 compat_dim s t then Inr (map2 bc_dim s t)
         else Inl (ValueError ''operands could not be broadcast together''))"
  by (simp add: broadcast_shapes_def pad_shape_def)

lemma compat_stored: "list_all2 compat_dim (map2 stored_dim fa dims) (map2 stored_dim fb dims)"
  if "length fa = length dims" "length fb = length dims"
  using that(1) that(2)[symmetric]
  by (induction fa dims fb rule: list_induct3) (auto simp: compat_dim_def stored_dim_def)

lemma bc_stored: "map2 bc_dim (map2 stored_dim fa dims) (map2 stored_dim fb dims)
    = map2 stored_dim (map2 (\<and>) fa fb) dims"
  if "length fa = length dims" "length fb = length dims"
  using that(1) that(2)[symmetric]
  by (induction fa dims fb rule: list_induct3) (auto simp: bc_dim_def stored_dim_def)

lemma clip_stored:
  assumes "length fa = length dims" "length fb = length dims" "valid_index dims idx"
  shows "map2 clip_dim (map2 stored_dim fa dims) (map2 stored_idx (map2 (\<and>) fa fb) idx)
           = map2 stored_idx fa idx"
  using assms(1) assms(2)[symmetric] assms(3)
proof (induction fa dims fb arbitrary: idx rule: list_induct3)
  case Nil then show ?case by simp
next
  case (Cons a fa d dims b fb)
  then obtain i r where "idx = i # r" "i < d" "valid_index dims r"
    by (auto simp: valid_index_Cons_iff)
  with Cons show ?case
    by (auto simp: clip_dim_def stored_dim_def stored_idx_def)
qed

lemma clip_stored':
  assumes "length fa = length dims" "length fb = length dims" "valid_index dims idx"
  shows "map2 clip_dim (map2 stored_dim fb dims) (map2 stored_idx (map2 (\<and>) fa fb) idx)
           = map2 stored_idx fb idx"
  using assms(1) assms(2)[symmetric] assms(3)
proof (induction fa dims fb arbitrary: idx rule: list_induct3)
  case Nil then show ?case by simp
next
  case (Cons a fa d dims b fb)
  then obtain i r where "idx = i # r" "i < d" "valid_index dims r"
    by (auto simp: valid_index_Cons_iff)
  with Cons show ?case
    by (auto simp: clip_dim_def stored_dim_def stored_idx_def)
qed

lemma bc_index_same_rank: "length idx = length s \<Longrightarrow> bc_index s idx = map2 clip_dim s idx"
  by (simp add: bc_index_def)

lemma broadcast2_represents:
  assumes a: "represents a fa dims ga" and b: "represents b fb dims gb"
  shows "\<exists>c. broadcast2 f a b = Inr c \<and>
           represents c (map2 (\<and>) fa fb) dims (\<lambda>idx. f (ga idx) (gb idx))"
proof -
  from a b have la: "length fa = length dims" and lb: "length fb = length dims"
    and sa: "shape a = map2 stored_dim fa dims" and sb: "shape b = map2 stored_dim fb dims"
    by (auto simp: represents_def)
  have bs: "broadcast_shapes (shape a) (shape b) = Inr (map2 stored_dim (map2 (\<and>) fa fb) dims)"
    using la lb by (simp add: sa sb broadcast_shapes_same_rank compat_stored bc_stored)
  let ?c = "NdArray (map2 stored_dim (map2 (\<and>) fa fb) dims)
     (\<lambda>idx. f (item a (bc_index (shape a) idx)) (item b (bc_index (shape b) idx)))"
  have "broadcast2 f a b = Inr ?c"
    by (simp add: broadcast2_def bs ebind_def)
  moreover have "represents ?c (map2 (\<and>) fa fb) dims (\<lambda>idx. f (ga idx) (gb idx))"
    unfolding represents_def
  proof (intro conjI allI impI)
    fix idx assume v: "valid_index dims idx"
    then have li: "length idx = length dims" by (rule valid_index_length)
    have 1: "bc_index (shape a) (map2 stored_idx (map2 (\<and>) fa fb) idx) = map2 stored_idx fa idx"
      using la lb li v by (simp add: sa bc_index_same_rank clip_stored)
    have 2: "bc_index (shape b) (map2 stored_idx (map2 (\<and>) fa fb) idx) = map2 stored_idx fb idx"
      using la lb li v by (simp add: sb bc_index_same_rank clip_stored')
    from a v have 3: "item a (map2 stored_idx fa idx) = ga idx" by (simp add: represents_def)
    from b v have 4: "item b (map2 stored_idx fb idx) = gb idx" by (simp add: represents_def)
    show "item ?c (map2 stored_idx (map2 (\<and>) fa fb) idx) = f (ga idx) (gb idx)"
      by (simp only: ndarray.sel 1 2 3 4)
  qed (use la lb in simp_all)
  ultimately show ?thesis by blast
qed

lemma shape_expand_last_pow: "shape ((expand_last ^^ n) a) = shape a @ replicate n 1"
  by (induction n) (simp_all add: expand_last_def replicate_append_same)

lemma item_expand_last_pow: "item ((expand_last ^^ n) a) idx = item a (take (length idx - n) idx)"
proof (induction n arbitrary: idx)
  case 0 then show ?case by simp
next
  case (Suc n)
  have "take (length idx - Suc n) (butlast idx) = take (length idx - Suc n) idx"
    by (simp add: butlast_conv_take min_def)
  with Suc show ?case by (simp add: expand_last_def)
qed

lemma stored_dim_all_true: "length es = n \<Longrightarrow> map2 stored_dim (replicate n True) es = replicate n 1"
  by (induction es arbitrary: n) (auto simp: stored_dim_def)

lemma stored_idx_all_true: "length es = n \<Longrightarrow> map2 stored_idx (replicate n True) es = replicate n 0"
  by (induction es arbitrary: n) (auto simp: stored_idx_def)

lemma stored_dim_all_false: "length es = n \<Longrightarrow> map2 stored_dim (replicate n False) es = es"
  by (induction es arbitrary: n) (auto simp: stored_dim_def)

lemma stored_idx_all_false: "length es = n \<Longrightarrow> map2 stored_idx (replicate n False) es = es"
  by (induction es arbitrary: n) (auto simp: stored_idx_def)

lemma valid_index_append:
  "valid_index (ds @ es) idx \<longleftrightarrow>
     (\<exists>i1 i2. idx = i1 @ i2 \<and> valid_index ds i1 \<and> valid_index es i2)"
  unfolding valid_index_def by (auto simp: list_all2_append2 dest: list_all2_lengthD)

lemma represents_array1: "represents (array1 xs) [False] [length xs] (\<lambda>idx. xs ! hd idx)"
  by (auto simp: represents_def array1_def stored_dim_def stored_idx_def valid_index_Cons_iff)

lemma represents_expand_first:
  "represents a fl ds g \<Longrightarrow> represents (expand_first a) (True # fl) (d # ds) (\<lambda>idx. g (tl idx))"
  by (auto simp: represents_def expand_first_def stored_dim_def stored_idx_def valid_index_Cons_iff)

lemma represents_expand_last_pow:
  assumes a: "represents a fl ds g" and n: "length es = n"
  shows "represents ((expand_last ^^ n) a) (fl @ replicate n True) (ds @ es) (\<lambda>idx. g (take (length ds) idx))"
proof -
  from a have l: "length fl = length ds" and s: "shape a = map2 stored_dim fl ds"
    by (auto simp: represents_def)
  have sh: "shape ((expand_last ^^ n) a) = map2 stored_dim (fl @ replicate n True) (ds @ es)"
    using l n by (simp add: shape_expand_last_pow s stored_dim_all_true)
  have it: "item ((expand_last ^^ n) a) (map2 stored_idx (fl @ replicate n True) idx) = g (take (length ds) idx)"
    if v: "valid_index (ds @ es) idx" for idx
  proof -
    from v obtain i1 i2 where idx: "idx = i1 @ i2" and v1: "valid_index ds i1" and v2: "valid_index es i2"
      by (auto simp: valid_index_append)
    have l1: "length i1 = length ds" and l2: "length i2 = n"
      using v1 v2 n by (auto dest: valid_index_length)
    have "map2 stored_idx (fl @ replicate n True) idx = map2 stored_idx fl i1 @ replicate n 0"
      using l l1 l2 by (simp add: idx stored_idx_all_true)
    moreover have "length (map2 stored_idx fl i1) = length ds" using l l1 by simp
    ultimately have "item ((expand_last ^^ n) a) (map2 stored_idx (fl @ replicate n True) idx)
        = item a (map2 stored_idx fl i1)"
      by (simp add: item_expand_last_pow)
    also have "\<dots> = g i1" using a v1 by (simp add: represents_def)
    finally show ?thesis using l1 by (simp add: idx)
  qed
  show ?thesis unfolding represents_def using l n sh it by simp
qed

lemma represents_map_array:
  "represents a fl ds g \<Longrightarrow> represents (map_array h a) fl ds (\<lambda>idx. h (g idx))"
  by (simp add: represents_def map_array_def)

lemma represents_cong:
  "represents a fl ds g \<Longrightarrow> (\<And>idx. valid_index ds idx \<Longrightarrow> g idx = g' idx) \<Longrightarrow> represents a fl ds g'"
  by (simp add: represents_def)

lemma represents_self:
  "length fl = length ds \<Longrightarrow> shape a = map2 stored_dim fl ds \<Longrightarrow>
   represents a fl ds (\<lambda>idx. item a (map2 stored_idx fl idx))"
  by (simp add: represents_def)

lemma representsD:
  "represents a fl ds g \<Longrightarrow> valid_index ds idx \<Longrightarrow> item a (map2 stored_idx fl idx) = g idx"
  by (simp add: represents_def)

lemma representsI:
  "length fl = length ds \<Longrightarrow> shape a = map2 stored_dim fl ds \<Longrightarrow>
   (\<And>idx. valid_index ds idx \<Longrightarrow> item a (map2 stored_idx fl idx) = g idx) \<Longrightarrow>
   represents a fl ds g"
  by (simp add: represents_def)

lemma valid_index_3:
  "valid_index (A # B # T) idx \<longleftrightarrow> (\<exists>i k r. idx = i # k # r \<and> i < A \<and> k < B \<and> valid_index T r)"
  by (auto simp: valid_index_Cons_iff)

lemma represents_nodes_shape:
  assumes "represents a (f0 # False # fs) (A # N # T) g"
  shows "shape a = stored_dim f0 A # N # map2 stored_dim fs T" "length fs = length T"
  using assms by (auto simp: represents_def stored_dim_def)

lemma represents_lower_nodes:
  assumes a: "represents a (f0 # False # fs) (A # N # T) g"
  shows "\<exists>c. lower_nodes a = Inr c \<and> represents c (f0 # False # fs) (A # (N - 1) # T) g"
proof -
  note sh = represents_nodes_shape[OF a]
  let ?c = "NdArray (stored_dim f0 A # (N - 1) # map2 stored_dim fs T) (item a)"
  have "lower_nodes a = Inr ?c" by (simp add: lower_nodes_def sh)
  moreover have "represents ?c (f0 # False # fs) (A # (N - 1) # T) g"
  proof (rule representsI)
    fix idx assume "valid_index (A # (N - 1) # T) idx"
    then obtain i k r where idx: "idx = i # k # r" and "i < A" "k < N - 1" "valid_index T r"
      by (auto simp: valid_index_3)
    then have "valid_index (A # N # T) idx" by simp
    from representsD[OF a this]
    show "item ?c (map2 stored_idx (f0 # False # fs) idx) = g idx" by simp
  qed (simp_all add: sh stored_dim_def)
  ultimately show ?thesis by blast
qed

lemma represents_upper_nodes:
  assumes a: "represents a (f0 # False # fs) (A # N # T) g"
  shows "\<exists>c. upper_nodes a = Inr c \<and>
     represents c (f0 # False # fs) (A # (N - 1) # T) (\<lambda>idx. g (hd idx # Suc (idx ! 1) # drop 2 idx))"
proof -
  note sh = represents_nodes_shape[OF a]
  let ?c = "NdArray (stored_dim f0 A # (N - 1) # map2 stored_dim fs T)
       (\<lambda>idx. case idx of i # k # r \<Rightarrow> item a (i # Suc k # r) | _ \<Rightarrow> item a idx)"
  have "upper_nodes a = Inr ?c" by (simp add: upper_nodes_def sh)
  moreover have "represents ?c (f0 # False # fs) (A # (N - 1) # T)
       (\<lambda>idx. g (hd idx # Suc (idx ! 1) # drop 2 idx))"
  proof (rule representsI)
    fix idx assume "valid_index (A # (N - 1) # T) idx"
    then obtain i k r where idx: "idx = i # k # r" and "i < A" "k < N - 1" "valid_index T r"
      by (auto simp: valid_index_3)
    then have "valid_index (A # N # T) (i # Suc k # r)" by simp
    from representsD[OF a this]
    show "item ?c (map2 stored_idx (f0 # False # fs) idx) = g (hd idx # Suc (idx ! 1) # drop 2 idx)"
      by (simp add: idx stored_idx_def)
  qed (simp_all add: sh stored_dim_def)
  ultimately show ?thesis by blast
qed

lemma represents_diff_axis1:
  assumes a: "represents a (f0 # False # fs) (A # N # T) g"
  shows "\<exists>c. diff_axis1 a = Inr c \<and>
     represents c (f0 # False # fs) (A # (N - 1) # T)
       (\<lambda>idx. g (hd idx # Suc (idx ! 1) # drop 2 idx) - g idx)"
proof -
  note sh = represents_nodes_shape[OF a]
  let ?c = "NdArray (stored_dim f0 A # (N - 1) # map2 stored_dim fs T)
       (\<lambda>idx. case idx of i # k # r \<Rightarrow> item a (i # Suc k # r) - item a (i # k # r) | _ \<Rightarrow> 0)"
  have "diff_axis1 a = Inr ?c" by (simp add: diff_axis1_def sh)
  moreover have "represents ?c (f0 # False # fs) (A # (N - 1) # T)
       (\<lambda>idx. g (hd idx # Suc (idx ! 1) # drop 2 idx) - g idx)"
  proof (rule representsI)
    fix idx assume "valid_index (A # (N - 1) # T) idx"
    then obtain i k r where idx: "idx = i # k # r" and "i < A" "k < N - 1" "valid_index T r"
      by (auto simp: valid_index_3)
    then have "valid_index (A # N # T) (i # Suc k # r)" "valid_index (A # N # T) (i # k # r)"
      by simp_all
    from representsD[OF a this(1)] representsD[OF a this(2)]
    show "item ?c (map2 stored_idx (f0 # False # fs) idx)
        = g (hd idx # Suc (idx ! 1) # drop 2 idx) - g idx"
      by (simp add: idx stored_idx_def)
  qed (simp_all add: sh stored_dim_def)
  ultimately show ?thesis by blast
qed

lemma represents_all_false:
  "represents a (replicate (length ds) False) ds g \<longleftrightarrow>
     shape a = ds \<and> (\<forall>idx. valid_index ds idx \<longrightarrow> item a idx = g idx)"
proof -
  have "map2 stored_idx (replicate (length ds) False) idx = idx" if "valid_index ds idx" for idx
    using valid_index_length[OF that] by (simp add: stored_idx_all_false)
  then show ?thesis
    by (auto simp: represents_def stored_dim_all_false)
qed

lemma sum_axis1_full:
  assumes "shape a = A # B # T"
  shows "\<exists>c. sum_axis1 a = Inr c \<and> shape c = A # T \<and>
           (\<forall>m idx. item c (m # idx) = (\<Sum>k<B. item a (m # k # idx)))"
  using assms by (simp add: sum_axis1_def)

lemma clip_valid: "valid_index s idx \<Longrightarrow> map2 clip_dim s idx = idx"
  unfolding valid_index_def
  by (induction idx s rule: list_all2_induct) (auto simp: clip_dim_def)

lemma compat_refl: "list_all2 compat_dim s s"
  by (simp add: list_all2_same compat_dim_def)

lemma bc_same: "map2 bc_dim s s = s"
  by (induction s) (auto simp: bc_dim_def)

lemma iadd_same_shape:
  assumes "shape a = shape r"
  shows "\<exists>c. iadd r a = Inr c \<and> shape c = shape r \<and>
           (\<forall>idx. valid_index (shape r) idx \<longrightarrow> item c idx = item r idx + item a idx)"
  using assms
  by (simp add: iadd_def ebind_def broadcast_shapes_same_rank compat_refl bc_same
        bc_index_same_rank valid_index_length clip_valid)

subsection \<open>The kernel argument and the Filon sum\<close>

lemma represents_times2:
  assumes "length S = r"
  shows "represents ((expand_last ^^ r) (expand_last (array1 ts)))
           (False # True # replicate r True) (length ts # B # S) (\<lambda>idx. ts ! hd idx)"
proof -
  have 1: "represents ((expand_last ^^ 1) (array1 ts)) ([False] @ replicate 1 True) ([length ts] @ [B])
             (\<lambda>idx. ts ! hd (take (length [length ts]) idx))"
    by (rule represents_expand_last_pow[OF represents_array1]) simp
  have 2: "represents ((expand_last ^^ r) ((expand_last ^^ 1) (array1 ts)))
             (([False] @ replicate 1 True) @ replicate r True) (([length ts] @ [B]) @ S)
             (\<lambda>idx. ts ! hd (take (length [length ts]) (take (length ([length ts] @ [B])) idx)))"
    by (rule represents_expand_last_pow[OF 1 assms])
  show ?thesis
    by (rule represents_cong[OF 2[simplified]]) (auto simp: valid_index_3)
qed

lemma represents_omegas2:
  assumes "length S = r"
  shows "represents ((expand_last ^^ r) (expand_first (array1 omegas)))
           (True # False # replicate r True) (A # length omegas # S) (\<lambda>idx. omegas ! (idx ! 1))"
proof -
  have 1: "represents (expand_first (array1 omegas)) (True # [False]) (A # [length omegas])
             (\<lambda>idx. omegas ! hd (tl idx))"
    by (rule represents_expand_first[OF represents_array1])
  have 2: "represents ((expand_last ^^ r) (expand_first (array1 omegas)))
             ((True # [False]) @ replicate r True) ((A # [length omegas]) @ S)
             (\<lambda>idx. omegas ! hd (tl (take (length (A # [length omegas])) idx)))"
    by (rule represents_expand_last_pow[OF 1 assms])
  show ?thesis
    by (rule represents_cong[OF 2[simplified]]) (auto simp: valid_index_3)
qed

lemma kernel_argument_represents:
  fixes ts omegas :: "real list"
  assumes r: "length S = r"
  defines "D \<equiv> length ts # (length omegas - 1) # S"
  shows "\<exists>delta eo x. kernel_argument (array1 ts) omegas (Suc (Suc r)) = Inr (delta, eo, x) \<and>
     represents delta (True # False # replicate r True) D
        (\<lambda>idx. omegas ! Suc (idx ! 1) - omegas ! (idx ! 1)) \<and>
     represents eo (False # False # replicate r True) D
        (\<lambda>idx. exp (\<i> * complex_of_real (omegas ! (idx ! 1)) * complex_of_real (ts ! hd idx))) \<and>
     represents x (False # False # replicate r True) D
        (\<lambda>idx. (omegas ! Suc (idx ! 1) - omegas ! (idx ! 1)) * ts ! hd idx)"
proof -
  let ?times2 = "(expand_last ^^ r) (expand_last (array1 ts))"
  let ?omegas2 = "(expand_last ^^ r) (expand_first (array1 omegas))"
  note om = represents_omegas2[OF r, of omegas "length ts"]
  have t2: "represents ?times2 (False # True # replicate r True) D (\<lambda>idx. ts ! hd idx)"
    unfolding D_def by (rule represents_times2[OF r])
  from represents_diff_axis1[OF om] obtain delta where
    d: "diff_axis1 ?omegas2 = Inr delta" and
    rd0: "represents delta (True # False # replicate r True) D
       (\<lambda>idx. omegas ! ((hd idx # Suc (idx ! 1) # drop 2 idx) ! 1) - omegas ! (idx ! 1))"
    unfolding D_def by blast
  have rd: "represents delta (True # False # replicate r True) D
       (\<lambda>idx. omegas ! Suc (idx ! 1) - omegas ! (idx ! 1))"
    using rd0 by simp
  from represents_lower_nodes[OF om] obtain lo where
    l: "lower_nodes ?omegas2 = Inr lo" and
    rl: "represents lo (True # False # replicate r True) D (\<lambda>idx. omegas ! (idx ! 1))"
    unfolding D_def by blast
  from broadcast2_represents[OF rl t2, of "\<lambda>w t. exp (\<i> * complex_of_real w * complex_of_real t)"]
  obtain eo where
    e: "broadcast2 (\<lambda>w t. exp (\<i> * complex_of_real w * complex_of_real t)) lo ?times2 = Inr eo" and
    re: "represents eo (False # False # replicate r True) D
        (\<lambda>idx. exp (\<i> * complex_of_real (omegas ! (idx ! 1)) * complex_of_real (ts ! hd idx)))"
    by auto
  from broadcast2_represents[OF rd t2, of "(*)"]
  obtain x where
    x: "broadcast2 (*) delta ?times2 = Inr x" and
    rx: "represents x (False # False # replicate r True) D
        (\<lambda>idx. (omegas ! Suc (idx ! 1) - omegas ! (idx ! 1)) * ts ! hd idx)"
    by auto
  have n2: "Suc (Suc r) - 2 = r" by simp
  have "kernel_argument (array1 ts) omegas (Suc (Suc r)) = Inr (delta, eo, x)"
    unfolding kernel_argument_def Let_def
    by (simp only: n2 d l e x ebind_def sum.case)
  with rd re rx show ?thesis by blast
qed

lemma phi_and_psi_shape:
  assumes "phi_and_psi eps x = Inr (p, q)"
  shows "shape p = shape x" "shape q = shape x"
  using assms
  by (auto simp: phi_and_psi_def ebind_def unravel_def split: sum.splits prod.splits)

lemma shape_map_array [simp]: "shape (map_array f a) = shape a"
  by (simp add: map_array_def)

lemma represents_shape: "represents a fl ds g \<Longrightarrow> shape a = map2 stored_dim fl ds"
  by (simp add: represents_def)

lemma represents_length: "represents a fl ds g \<Longrightarrow> length fl = length ds"
  by (simp add: represents_def)

lemma stored_idx_simps [simp]: "stored_idx False i = i" "stored_idx True i = 0"
  by (simp_all add: stored_idx_def)

lemma stored_dim_simps [simp]: "stored_dim False n = n" "stored_dim True n = 1"
  by (simp_all add: stored_dim_def)

lemma filon_sum_value:
  fixes ts omegas :: "real list"
  assumes r: "length S = r" and sv: "shape fv = length omegas # S" and sd: "shape fd = length omegas # S"
    and ka: "kernel_argument (array1 ts) omegas (Suc (Suc r)) = Inr (delta, eo, x)"
    and pp: "phi_and_psi eps x = Inr (phi_x, psi_x)"
    and pm: "phi_and_psi eps (map_array uminus x) = Inr (phi_mx, psi_mx)"
  shows "\<exists>c. filon_sum eps (array1 ts) omegas fv fd = Inr c \<and> shape c = length ts # S \<and>
     (\<forall>m idx. m < length ts \<longrightarrow> valid_index S idx \<longrightarrow> item c (m # idx) =
        (\<Sum>k<length omegas - 1.
           complex_of_real (omegas ! Suc k - omegas ! k)
           * exp (\<i> * complex_of_real (omegas ! k) * complex_of_real (ts ! m))
           * (item fv (k # idx) * item phi_mx (m # k # replicate r 0)
                * exp (\<i> * complex_of_real ((omegas ! Suc k - omegas ! k) * ts ! m))
              + item fv (Suc k # idx) * item phi_x (m # k # replicate r 0)
              - complex_of_real (omegas ! Suc k - omegas ! k) * item fd (k # idx)
                * item psi_mx (m # k # replicate r 0)
                * exp (\<i> * complex_of_real ((omegas ! Suc k - omegas ! k) * ts ! m))
              + complex_of_real (omegas ! Suc k - omegas ! k) * item fd (Suc k # idx)
                * item psi_x (m # k # replicate r 0))))"
proof -
  define D where "D = length ts # (length omegas - 1) # S"
  define F1 where "F1 = False # False # replicate r True"
  define FV where "FV = True # False # replicate r False"
  define FF where "FF = False # False # replicate r False"
  from kernel_argument_represents[OF r, of ts omegas] ka
  have rd: "represents delta (True # False # replicate r True) D
        (\<lambda>idx. omegas ! Suc (idx ! 1) - omegas ! (idx ! 1))"
    and re: "represents eo F1 D
        (\<lambda>idx. exp (\<i> * complex_of_real (omegas ! (idx ! 1)) * complex_of_real (ts ! hd idx)))"
    and rx: "represents x F1 D
        (\<lambda>idx. (omegas ! Suc (idx ! 1) - omegas ! (idx ! 1)) * ts ! hd idx)"
    unfolding D_def F1_def by auto
  have lF1: "length F1 = length D" using r by (simp add: F1_def D_def)
  have sx: "shape x = map2 stored_dim F1 D" by (rule represents_shape[OF rx])
  have rex: "represents (map_array (\<lambda>x. exp (\<i> * complex_of_real x)) x) F1 D
        (\<lambda>idx. exp (\<i> * complex_of_real ((omegas ! Suc (idx ! 1) - omegas ! (idx ! 1)) * ts ! hd idx)))"
    by (rule represents_map_array[OF rx])
  have rphi: "represents phi_x F1 D (\<lambda>idx. item phi_x (map2 stored_idx F1 idx))"
    and rpsi: "represents psi_x F1 D (\<lambda>idx. item psi_x (map2 stored_idx F1 idx))"
    and rphim: "represents phi_mx F1 D (\<lambda>idx. item phi_mx (map2 stored_idx F1 idx))"
    and rpsim: "represents psi_mx F1 D (\<lambda>idx. item psi_mx (map2 stored_idx F1 idx))"
    using phi_and_psi_shape[OF pp] phi_and_psi_shape[OF pm] sx lF1
    by (auto intro!: represents_self)
  have rfv0: "represents fv (replicate (length (length omegas # S)) False) (length omegas # S) (item fv)"
    and rfd0: "represents fd (replicate (length (length omegas # S)) False) (length omegas # S) (item fd)"
    unfolding represents_all_false using sv sd by auto
  have rfv: "represents (expand_first fv) FV (length ts # length omegas # S) (\<lambda>idx. item fv (tl idx))"
    using represents_expand_first[OF rfv0, of "length ts"] r by (simp add: FV_def)
  have rfd: "represents (expand_first fd) FV (length ts # length omegas # S) (\<lambda>idx. item fd (tl idx))"
    using represents_expand_first[OF rfd0, of "length ts"] r by (simp add: FV_def)
  have nd: "length (shape (expand_first fv)) = Suc (Suc r)"
    using sv r by (simp add: expand_first_def)
  have and1: "map2 (\<and>) (True # False # replicate r True) F1 = F1"
    and and2: "map2 (\<and>) FV F1 = FF" and and3: "map2 (\<and>) FF F1 = FF"
    and and4: "map2 (\<and>) FF FF = FF" and and5: "map2 (\<and>) (True # False # replicate r True) FV = FV"
    and and6: "map2 (\<and>) F1 FF = FF"
    by (simp_all add: F1_def FV_def FF_def)
  from broadcast2_represents[OF rd re, of "\<lambda>d e. complex_of_real d * e"]
  obtain weight where w: "broadcast2 (\<lambda>d e. complex_of_real d * e) delta eo = Inr weight"
    and rw: "represents weight F1 D (\<lambda>idx. complex_of_real (omegas ! Suc (idx ! 1) - omegas ! (idx ! 1))
        * exp (\<i> * complex_of_real (omegas ! (idx ! 1)) * complex_of_real (ts ! hd idx)))"
    unfolding and1 by blast
  from represents_lower_nodes[OF rfv[unfolded FV_def]]
  obtain f_lo where flo: "lower_nodes (expand_first fv) = Inr f_lo"
    and rflo: "represents f_lo FV D (\<lambda>idx. item fv (tl idx))"
    unfolding FV_def D_def by blast
  from broadcast2_represents[OF rflo rphim, of "(*)"]
  obtain a1 where a1: "broadcast2 (*) f_lo phi_mx = Inr a1"
    and ra1: "represents a1 FF D (\<lambda>idx. item fv (tl idx) * item phi_mx (map2 stored_idx F1 idx))"
    unfolding and2 by blast
  from broadcast2_represents[OF ra1 rex, of "(*)"]
  obtain a where a: "broadcast2 (*) a1 (map_array (\<lambda>x. exp (\<i> * complex_of_real x)) x) = Inr a"
    and ra: "represents a FF D (\<lambda>idx. item fv (tl idx) * item phi_mx (map2 stored_idx F1 idx)
        * exp (\<i> * complex_of_real ((omegas ! Suc (idx ! 1) - omegas ! (idx ! 1)) * ts ! hd idx)))"
    unfolding and3 by blast
  from represents_upper_nodes[OF rfv[unfolded FV_def]]
  obtain f_hi where fhi: "upper_nodes (expand_first fv) = Inr f_hi"
    and rfhi: "represents f_hi FV D (\<lambda>idx. item fv (tl (hd idx # Suc (idx ! 1) # drop 2 idx)))"
    unfolding FV_def D_def by blast
  from broadcast2_represents[OF rfhi rphi, of "(*)"]
  obtain b where b: "broadcast2 (*) f_hi phi_x = Inr b"
    and rb: "represents b FF D (\<lambda>idx. item fv (tl (hd idx # Suc (idx ! 1) # drop 2 idx))
        * item phi_x (map2 stored_idx F1 idx))"
    unfolding and2 by blast
  from broadcast2_represents[OF ra rb, of "(+)"]
  obtain ab where ab: "broadcast2 (+) a b = Inr ab"
    and rab: "represents ab FF D (\<lambda>idx. item fv (tl idx) * item phi_mx (map2 stored_idx F1 idx)
        * exp (\<i> * complex_of_real ((omegas ! Suc (idx ! 1) - omegas ! (idx ! 1)) * ts ! hd idx))
        + item fv (tl (hd idx # Suc (idx ! 1) # drop 2 idx)) * item phi_x (map2 stored_idx F1 idx))"
    unfolding and4 by blast
  from represents_lower_nodes[OF rfd[unfolded FV_def]]
  obtain d_lo where dlo: "lower_nodes (expand_first fd) = Inr d_lo"
    and rdlo: "represents d_lo FV D (\<lambda>idx. item fd (tl idx))"
    unfolding FV_def D_def by blast
  from broadcast2_represents[OF rd rdlo, of "\<lambda>d f. complex_of_real d * f"]
  obtain c1 where c1: "broadcast2 (\<lambda>d f. complex_of_real d * f) delta d_lo = Inr c1"
    and rc1: "represents c1 FV D (\<lambda>idx. complex_of_real (omegas ! Suc (idx ! 1) - omegas ! (idx ! 1))
        * item fd (tl idx))"
    unfolding and5 by blast
  from broadcast2_represents[OF rc1 rpsim, of "(*)"]
  obtain c2 where c2: "broadcast2 (*) c1 psi_mx = Inr c2"
    and rc2: "represents c2 FF D (\<lambda>idx. complex_of_real (omegas ! Suc (idx ! 1) - omegas ! (idx ! 1))
        * item fd (tl idx) * item psi_mx (map2 stored_idx F1 idx))"
    unfolding and2 by blast
  from broadcast2_represents[OF rc2 rex, of "(*)"]
  obtain c where c: "broadcast2 (*) c2 (map_array (\<lambda>x. exp (\<i> * complex_of_real x)) x) = Inr c"
    and rc: "represents c FF D (\<lambda>idx. complex_of_real (omegas ! Suc (idx ! 1) - omegas ! (idx ! 1))
        * item fd (tl idx) * item psi_mx (map2 stored_idx F1 idx)
        * exp (\<i> * complex_of_real ((omegas ! Suc (idx ! 1) - omegas ! (idx ! 1)) * ts ! hd idx)))"
    unfolding and3 by blast
  from broadcast2_represents[OF rab rc, of "(-)"]
  obtain abc where abc: "broadcast2 (-) ab c = Inr abc"
    and rabc: "represents abc FF D (\<lambda>idx.
        item fv (tl idx) * item phi_mx (map2 stored_idx F1 idx)
        * exp (\<i> * complex_of_real ((omegas ! Suc (idx ! 1) - omegas ! (idx ! 1)) * ts ! hd idx))
        + item fv (tl (hd idx # Suc (idx ! 1) # drop 2 idx)) * item phi_x (map2 stored_idx F1 idx)
        - complex_of_real (omegas ! Suc (idx ! 1) - omegas ! (idx ! 1))
        * item fd (tl idx) * item psi_mx (map2 stored_idx F1 idx)
        * exp (\<i> * complex_of_real ((omegas ! Suc (idx ! 1) - omegas ! (idx ! 1)) * ts ! hd idx)))"
    unfolding and4 by blast
  from represents_upper_nodes[OF rfd[unfolded FV_def]]
  obtain d_hi where dhi: "upper_nodes (expand_first fd) = Inr d_hi"
    and rdhi: "represents d_hi FV D (\<lambda>idx. item fd (tl (hd idx # Suc (idx ! 1) # drop 2 idx)))"
    unfolding FV_def D_def by blast
  from broadcast2_represents[OF rd rdhi, of "\<lambda>d f. complex_of_real d * f"]
  obtain d1 where d1: "broadcast2 (\<lambda>d f. complex_of_real d * f) delta d_hi = Inr d1"
    and rd1: "represents d1 FV D (\<lambda>idx. complex_of_real (omegas ! Suc (idx ! 1) - omegas ! (idx ! 1))
        * item fd (tl (hd idx # Suc (idx ! 1) # drop 2 idx)))"
    unfolding and5 by blast
  from broadcast2_represents[OF rd1 rpsi, of "(*)"]
  obtain d where d: "broadcast2 (*) d1 psi_x = Inr d"
    and rdd: "represents d FF D (\<lambda>idx. complex_of_real (omegas ! Suc (idx ! 1) - omegas ! (idx ! 1))
        * item fd (tl (hd idx # Suc (idx ! 1) # drop 2 idx)) * item psi_x (map2 stored_idx F1 idx))"
    unfolding and2 by blast
  from broadcast2_represents[OF rabc rdd, of "(+)"]
  obtain abcd where abcd: "broadcast2 (+) abc d = Inr abcd"
    and rabcd: "represents abcd FF D (\<lambda>idx.
        item fv (tl idx) * item phi_mx (map2 stored_idx F1 idx)
        * exp (\<i> * complex_of_real ((omegas ! Suc (idx ! 1) - omegas ! (idx ! 1)) * ts ! hd idx))
        + item fv (tl (hd idx # Suc (idx ! 1) # drop 2 idx)) * item phi_x (map2 stored_idx F1 idx)
        - complex_of_real (omegas ! Suc (idx ! 1) - omegas ! (idx ! 1))
        * item fd (tl idx) * item psi_mx (map2 stored_idx F1 idx)
        * exp (\<i> * complex_of_real ((omegas ! Suc (idx ! 1) - omegas ! (idx ! 1)) * ts ! hd idx))
        + complex_of_real (omegas ! Suc (idx ! 1) - omegas ! (idx ! 1))
        * item fd (tl (hd idx # Suc (idx ! 1) # drop 2 idx)) * item psi_x (map2 stored_idx F1 idx))"
    unfolding and4 by blast
  from broadcast2_represents[OF rw rabcd, of "(*)"]
  obtain tot where tot: "broadcast2 (*) weight abcd = Inr tot"
    and rtot: "represents tot FF D (\<lambda>idx.
        complex_of_real (omegas ! Suc (idx ! 1) - omegas ! (idx ! 1))
        * exp (\<i> * complex_of_real (omegas ! (idx ! 1)) * complex_of_real (ts ! hd idx))
        * (item fv (tl idx) * item phi_mx (map2 stored_idx F1 idx)
        * exp (\<i> * complex_of_real ((omegas ! Suc (idx ! 1) - omegas ! (idx ! 1)) * ts ! hd idx))
        + item fv (tl (hd idx # Suc (idx ! 1) # drop 2 idx)) * item phi_x (map2 stored_idx F1 idx)
        - complex_of_real (omegas ! Suc (idx ! 1) - omegas ! (idx ! 1))
        * item fd (tl idx) * item psi_mx (map2 stored_idx F1 idx)
        * exp (\<i> * complex_of_real ((omegas ! Suc (idx ! 1) - omegas ! (idx ! 1)) * ts ! hd idx))
        + complex_of_real (omegas ! Suc (idx ! 1) - omegas ! (idx ! 1))
        * item fd (tl (hd idx # Suc (idx ! 1) # drop 2 idx)) * item psi_x (map2 stored_idx F1 idx)))"
    unfolding and6 by blast
  have FFr: "FF = replicate (length D) False" using r by (simp add: FF_def D_def)
  from rtot[unfolded FFr represents_all_false]
  have stot: "shape tot = D" and itot: "\<And>idx. valid_index D idx \<Longrightarrow> item tot idx = 
        complex_of_real (omegas ! Suc (idx ! 1) - omegas ! (idx ! 1))
        * exp (\<i> * complex_of_real (omegas ! (idx ! 1)) * complex_of_real (ts ! hd idx))
        * (item fv (tl idx) * item phi_mx (map2 stored_idx F1 idx)
        * exp (\<i> * complex_of_real ((omegas ! Suc (idx ! 1) - omegas ! (idx ! 1)) * ts ! hd idx))
        + item fv (tl (hd idx # Suc (idx ! 1) # drop 2 idx)) * item phi_x (map2 stored_idx F1 idx)
        - complex_of_real (omegas ! Suc (idx ! 1) - omegas ! (idx ! 1))
        * item fd (tl idx) * item psi_mx (map2 stored_idx F1 idx)
        * exp (\<i> * complex_of_real ((omegas ! Suc (idx ! 1) - omegas ! (idx ! 1)) * ts ! hd idx))
        + complex_of_real (omegas ! Suc (idx ! 1) - omegas ! (idx ! 1))
        * item fd (tl (hd idx # Suc (idx ! 1) # drop 2 idx)) * item psi_x (map2 stored_idx F1 idx))"
    by blast+
  from sum_axis1_full[OF stot[unfolded D_def]]
  obtain res where res: "sum_axis1 tot = Inr res" and sres: "shape res = length ts # S"
    and ires: "\<And>m idx. item res (m # idx) = (\<Sum>k<length omegas - 1. item tot (m # k # idx))"
    by blast
  have fs: "filon_sum eps (array1 ts) omegas fv fd = Inr res"
    unfolding filon_sum_def filon_terms_def Let_def
    by (simp only: nd ka pp pm w flo a1 a fhi b ab dlo c1 c2 c abc dhi d1 d abcd tot res
          ebind_def sum.case prod.case)
  have val: "item res (m # idx) =
        (\<Sum>k<length omegas - 1.
           complex_of_real (omegas ! Suc k - omegas ! k)
           * exp (\<i> * complex_of_real (omegas ! k) * complex_of_real (ts ! m))
           * (item fv (k # idx) * item phi_mx (m # k # replicate r 0)
                * exp (\<i> * complex_of_real ((omegas ! Suc k - omegas ! k) * ts ! m))
              + item fv (Suc k # idx) * item phi_x (m # k # replicate r 0)
              - complex_of_real (omegas ! Suc k - omegas ! k) * item fd (k # idx)
                * item psi_mx (m # k # replicate r 0)
                * exp (\<i> * complex_of_real ((omegas ! Suc k - omegas ! k) * ts ! m))
              + complex_of_real (omegas ! Suc k - omegas ! k) * item fd (Suc k # idx)
                * item psi_x (m # k # replicate r 0)))"
    if m: "m < length ts" and v: "valid_index S idx" for m idx
  proof -
    have li: "length idx = r" using valid_index_length[OF v] r by simp
    have st: "map2 stored_idx F1 (m # k # idx) = m # k # replicate r 0" for k
      using li by (simp add: F1_def stored_idx_all_true)
    show ?thesis
      unfolding ires
    proof (rule sum.cong[OF refl])
      fix k assume "k \<in> {..<length omegas - 1}"
      then have "valid_index D (m # k # idx)" using m v by (simp add: D_def)
      from itot[OF this] show "item tot (m # k # idx) = 
           complex_of_real (omegas ! Suc k - omegas ! k)
           * exp (\<i> * complex_of_real (omegas ! k) * complex_of_real (ts ! m))
           * (item fv (k # idx) * item phi_mx (m # k # replicate r 0)
                * exp (\<i> * complex_of_real ((omegas ! Suc k - omegas ! k) * ts ! m))
              + item fv (Suc k # idx) * item phi_x (m # k # replicate r 0)
              - complex_of_real (omegas ! Suc k - omegas ! k) * item fd (k # idx)
                * item psi_mx (m # k # replicate r 0)
                * exp (\<i> * complex_of_real ((omegas ! Suc k - omegas ! k) * ts ! m))
              + complex_of_real (omegas ! Suc k - omegas ! k) * item fd (Suc k # idx)
                * item psi_x (m # k # replicate r 0))"
        unfolding st by simp
    qed
  qed
  from fs sres val show ?thesis by blast
qed

subsection \<open>The asymptotic correction and the value of the integrator\<close>

lemma represents_vector:
  "shape a = [M] \<Longrightarrow> represents a [False] [M] (item a)"
  by (auto simp: represents_def valid_index_Cons_iff)

lemma inf_correction_value:
  assumes st: "shape times' = [M]" and sv: "shape func_value_end = S"
    and sd: "shape func_derivative_end = S"
  shows "\<exists>res. fourier_integral_inf_correction times' omega_end func_value_end func_derivative_end positive_inf
            = Inr res \<and> shape res = M # S \<and>
         (\<forall>m idx. m < M \<longrightarrow> valid_index S idx \<longrightarrow>
            item res (m # idx) =
              (if positive_inf then 1 else - 1)
              * exp (\<i> * complex_of_real (item times' [m]) * complex_of_real omega_end)
              * (\<i> * item func_value_end idx / complex_of_real (item times' [m])
                 - item func_derivative_end idx / complex_of_real ((item times' [m]) ^ 2)))"
proof -
  define r where "r = length S"
  define D where "D = M # S"
  define FT where "FT = False # replicate r True"
  define FV where "FV = True # replicate r False"
  define FF where "FF = False # replicate r False"
  define sign :: complex where "sign = (if positive_inf then 1 else - 1)"
  let ?times1 = "(expand_last ^^ r) times'"
  have rt: "represents ?times1 FT D (\<lambda>idx. item times' [hd idx])"
  proof -
    have 1: "represents ?times1 ([False] @ replicate r True) ([M] @ S) (\<lambda>idx. item times' (take (length [M]) idx))"
      by (rule represents_expand_last_pow[OF represents_vector[OF st]]) (simp add: r_def)
    show ?thesis
      unfolding FT_def D_def
      by (rule represents_cong[OF 1[simplified]]) (auto simp: valid_index_Cons_iff)
  qed
  have rv0: "represents func_value_end (replicate (length S) False) S (item func_value_end)"
    and rd0: "represents func_derivative_end (replicate (length S) False) S (item func_derivative_end)"
    unfolding represents_all_false using sv sd by auto
  have rv: "represents (expand_first func_value_end) FV D (\<lambda>idx. item func_value_end (tl idx))"
    using represents_expand_first[OF rv0, of M] by (simp add: FV_def D_def r_def)
  have rd: "represents (expand_first func_derivative_end) FV D (\<lambda>idx. item func_derivative_end (tl idx))"
    using represents_expand_first[OF rd0, of M] by (simp add: FV_def D_def r_def)
  have rf: "represents (map_array (\<lambda>t. sign * exp (\<i> * complex_of_real t * complex_of_real omega_end)) ?times1)
      FT D (\<lambda>idx. sign * exp (\<i> * complex_of_real (item times' [hd idx]) * complex_of_real omega_end))"
    by (rule represents_map_array[OF rt])
  have rt2: "represents (map_array (\<lambda>t. t ^ 2) ?times1) FT D (\<lambda>idx. (item times' [hd idx]) ^ 2)"
    by (rule represents_map_array[OF rt])
  have and1: "map2 (\<and>) FV FT = FF" and and2: "map2 (\<and>) FF FF = FF" and and3: "map2 (\<and>) FT FF = FF"
    by (simp_all add: FV_def FT_def FF_def)
  from broadcast2_represents[OF rv rt, of "\<lambda>v t. \<i> * v / complex_of_real t"]
  obtain a where a: "broadcast2 (\<lambda>v t. \<i> * v / complex_of_real t) (expand_first func_value_end) ?times1 = Inr a"
    and ra: "represents a FF D (\<lambda>idx. \<i> * item func_value_end (tl idx) / complex_of_real (item times' [hd idx]))"
    unfolding and1 by blast
  from broadcast2_represents[OF rd rt2, of "\<lambda>d t2. d / complex_of_real t2"]
  obtain b where b: "broadcast2 (\<lambda>d t2. d / complex_of_real t2) (expand_first func_derivative_end)
        (map_array (\<lambda>t. t ^ 2) ?times1) = Inr b"
    and rb: "represents b FF D (\<lambda>idx. item func_derivative_end (tl idx) / complex_of_real ((item times' [hd idx]) ^ 2))"
    unfolding and1 by blast
  from broadcast2_represents[OF ra rb, of "(-)"]
  obtain c where c: "broadcast2 (-) a b = Inr c"
    and rc: "represents c FF D (\<lambda>idx. \<i> * item func_value_end (tl idx) / complex_of_real (item times' [hd idx])
         - item func_derivative_end (tl idx) / complex_of_real ((item times' [hd idx]) ^ 2))"
    unfolding and2 by blast
  from broadcast2_represents[OF rf rc, of "(*)"]
  obtain res where res: "broadcast2 (*)
        (map_array (\<lambda>t. sign * exp (\<i> * complex_of_real t * complex_of_real omega_end)) ?times1) c = Inr res"
    and rres: "represents res FF D (\<lambda>idx.
         sign * exp (\<i> * complex_of_real (item times' [hd idx]) * complex_of_real omega_end)
         * (\<i> * item func_value_end (tl idx) / complex_of_real (item times' [hd idx])
         - item func_derivative_end (tl idx) / complex_of_real ((item times' [hd idx]) ^ 2)))"
    unfolding and3 by blast
  have FFr: "FF = replicate (length D) False" by (simp add: FF_def D_def r_def)
  from rres[unfolded FFr represents_all_false]
  have sres: "shape res = D" and ires: "\<And>idx. valid_index D idx \<Longrightarrow> item res idx =
         sign * exp (\<i> * complex_of_real (item times' [hd idx]) * complex_of_real omega_end)
         * (\<i> * item func_value_end (tl idx) / complex_of_real (item times' [hd idx])
         - item func_derivative_end (tl idx) / complex_of_real ((item times' [hd idx]) ^ 2))"
    by blast+
  have "fourier_integral_inf_correction times' omega_end func_value_end func_derivative_end positive_inf = Inr res"
    unfolding fourier_integral_inf_correction_def Let_def
    by (simp only: sv r_def[symmetric] sign_def[symmetric] a b c res ebind_def sum.case)
  moreover have "item res (m # idx) = (if positive_inf then 1 else - 1)
              * exp (\<i> * complex_of_real (item times' [m]) * complex_of_real omega_end)
              * (\<i> * item func_value_end idx / complex_of_real (item times' [m])
                 - item func_derivative_end idx / complex_of_real ((item times' [m]) ^ 2))"
    if "m < M" "valid_index S idx" for m idx
  proof -
    have "valid_index D (m # idx)" using that by (simp add: D_def)
    from ires[OF this] show ?thesis by (simp add: sign_def)
  qed
  ultimately show ?thesis using sres by (auto simp: D_def)
qed

lemma last_item_value:
  assumes "shape a = N # S" "0 < N"
  shows "last_item a = Inr (NdArray S (\<lambda>idx. item a ((N - 1) # idx)))"
  using assms by (simp add: last_item_def)

lemma first_item_value:
  assumes "shape a = N # S" "0 < N"
  shows "first_item a = Inr (NdArray S (\<lambda>idx. item a (0 # idx)))"
  using assms by (simp add: first_item_def)

lemma add_correction_value:
  assumes sr: "shape result = length ts # S" and sv: "shape fv = N # S" and sd: "shape fd = N # S"
    and n: "enabled \<longrightarrow> 0 < N"
    and w: "enabled \<longrightarrow> omega_end = Inr w"
    and v: "enabled \<longrightarrow> fve = Inr (NdArray S (\<lambda>idx. item fv (j # idx)))"
    and d: "enabled \<longrightarrow> fde = Inr (NdArray S (\<lambda>idx. item fd (j # idx)))"
  shows "\<exists>res. add_correction enabled (array1 ts) omega_end fve fde positive_inf result = Inr res \<and>
           shape res = length ts # S \<and>
           (\<forall>m idx. m < length ts \<longrightarrow> valid_index S idx \<longrightarrow>
              item res (m # idx) = item result (m # idx) +
                (if enabled
                 then (if positive_inf then 1 else - 1)
                      * exp (\<i> * complex_of_real (ts ! m) * complex_of_real w)
                      * (\<i> * item fv (j # idx) / complex_of_real (ts ! m)
                         - item fd (j # idx) / complex_of_real ((ts ! m) ^ 2))
                 else 0))"
proof (cases enabled)
  case False
  then show ?thesis using sr by (simp add: add_correction_def)
next
  case True
  let ?v = "NdArray S (\<lambda>idx. item fv (j # idx))"
  let ?d = "NdArray S (\<lambda>idx. item fd (j # idx))"
  from inf_correction_value[of "array1 ts" "length ts" ?v S ?d w positive_inf]
  obtain c where c: "fourier_integral_inf_correction (array1 ts) w ?v ?d positive_inf = Inr c"
    and sc: "shape c = length ts # S"
    and ic: "\<And>m idx. m < length ts \<Longrightarrow> valid_index S idx \<Longrightarrow>
            item c (m # idx) =
              (if positive_inf then 1 else - 1)
              * exp (\<i> * complex_of_real (ts ! m) * complex_of_real w)
              * (\<i> * item fv (j # idx) / complex_of_real (ts ! m)
                 - item fd (j # idx) / complex_of_real ((ts ! m) ^ 2))"
    by (auto simp: array1_def)
  from iadd_same_shape[of c result] sc sr
  obtain res where res: "iadd result c = Inr res" and sres: "shape res = length ts # S"
    and ires: "\<And>idx. valid_index (length ts # S) idx \<Longrightarrow> item res idx = item result idx + item c idx"
    by auto
  have "add_correction enabled (array1 ts) omega_end fve fde positive_inf result = Inr res"
    using True w v d by (simp add: add_correction_def ebind_def c res)
  moreover have "item res (m # idx) = item result (m # idx) +
                (if enabled
                 then (if positive_inf then 1 else - 1)
                      * exp (\<i> * complex_of_real (ts ! m) * complex_of_real w)
                      * (\<i> * item fv (j # idx) / complex_of_real (ts ! m)
                         - item fd (j # idx) / complex_of_real ((ts ! m) ^ 2))
                 else 0)" if "m < length ts" "valid_index S idx" for m idx
    using ires[of "m # idx"] ic[OF that] that True by simp
  ultimately show ?thesis using sres by blast
qed

lemma fourier_integral_value:
  fixes ts freqs :: "real list"
  assumes r: "length S = r" and sv: "shape fv = length freqs # S"
    and cp: "complex_pchip prim (map (\<lambda>f. 2 * pi * f) freqs) fv (map (\<lambda>f. 2 * pi * f) freqs) 1 0 = Inr fd"
    and sd: "shape fd = length freqs # S"
    and ne: "pos \<or> neg \<longrightarrow> freqs \<noteq> []"
    and ka: "kernel_argument (array1 ts) (map (\<lambda>f. 2 * pi * f) freqs) (Suc (Suc r)) = Inr (delta, eo, x)"
    and pp: "phi_and_psi eps x = Inr (phi_x, psi_x)"
    and pm: "phi_and_psi eps (map_array uminus x) = Inr (phi_mx, psi_mx)"
  shows "\<exists>res. fourier_integral_fixed_sampling_pchip prim eps ts freqs fv pos neg = Inr res \<and>
     shape res = length ts # S \<and>
     (\<forall>m idx. m < length ts \<longrightarrow> valid_index S idx \<longrightarrow> item res (m # idx) =
        (if pos
         then exp (\<i> * complex_of_real (ts ! m) * complex_of_real (2 * pi * last freqs))
              * (\<i> * item fv ((length freqs - 1) # idx) / complex_of_real (ts ! m)
                 - item fd ((length freqs - 1) # idx) / complex_of_real ((ts ! m) ^ 2))
         else 0)
        + (if neg
           then - (exp (\<i> * complex_of_real (ts ! m) * complex_of_real (2 * pi * hd freqs))
              * (\<i> * item fv (0 # idx) / complex_of_real (ts ! m)
                 - item fd (0 # idx) / complex_of_real ((ts ! m) ^ 2)))
           else 0)
        + (\<Sum>k<length freqs - 1.
           complex_of_real (2 * pi * freqs ! Suc k - 2 * pi * freqs ! k)
           * exp (\<i> * complex_of_real (2 * pi * freqs ! k) * complex_of_real (ts ! m))
           * (item fv (k # idx) * item phi_mx (m # k # replicate r 0)
                * exp (\<i> * complex_of_real ((2 * pi * freqs ! Suc k - 2 * pi * freqs ! k) * ts ! m))
              + item fv (Suc k # idx) * item phi_x (m # k # replicate r 0)
              - complex_of_real (2 * pi * freqs ! Suc k - 2 * pi * freqs ! k) * item fd (k # idx)
                * item psi_mx (m # k # replicate r 0)
                * exp (\<i> * complex_of_real ((2 * pi * freqs ! Suc k - 2 * pi * freqs ! k) * ts ! m))
              + complex_of_real (2 * pi * freqs ! Suc k - 2 * pi * freqs ! k) * item fd (Suc k # idx)
                * item psi_x (m # k # replicate r 0))))"
proof -
  define omegas where "omegas = map (\<lambda>f. 2 * pi * f) freqs"
  define N where "N = length freqs"
  have lo: "length omegas = N" by (simp add: omegas_def N_def)
  define result0 :: "complex ndarray" where "result0 = NdArray (length ts # tl (shape fv)) (\<lambda>_. 0)"
  have s0: "shape result0 = length ts # S" by (simp add: result0_def sv)
  have i0: "item result0 idx = 0" for idx by (simp add: result0_def)
  have svN: "shape fv = N # S" and sdN: "shape fd = N # S" using sv sd by (simp_all add: N_def)
  have pos_w: "pos \<longrightarrow> last_elem omegas = Inr (2 * pi * last freqs)"
    using ne by (auto simp: last_elem_def omegas_def last_map)
  have posN: "pos \<longrightarrow> 0 < N" and negN: "neg \<longrightarrow> 0 < N" using ne by (auto simp: N_def)
  have pos_v: "pos \<longrightarrow> last_item fv = Inr (NdArray S (\<lambda>idx. item fv ((N - 1) # idx)))"
    using posN last_item_value[OF svN] by blast
  have pos_d: "pos \<longrightarrow> last_item fd = Inr (NdArray S (\<lambda>idx. item fd ((N - 1) # idx)))"
    using posN last_item_value[OF sdN] by blast
  from add_correction_value[OF s0 svN sdN posN pos_w pos_v pos_d, of True]
  obtain result1 where r1: "add_correction pos (array1 ts) (last_elem omegas) (last_item fv) (last_item fd)
        True result0 = Inr result1"
    and s1: "shape result1 = length ts # S"
    and i1: "\<And>m idx. m < length ts \<Longrightarrow> valid_index S idx \<Longrightarrow>
              item result1 (m # idx) = 
                (if pos
                 then exp (\<i> * complex_of_real (ts ! m) * complex_of_real (2 * pi * last freqs))
                      * (\<i> * item fv ((N - 1) # idx) / complex_of_real (ts ! m)
                         - item fd ((N - 1) # idx) / complex_of_real ((ts ! m) ^ 2))
                 else 0)"
    by (auto simp: i0)
  have neg_w: "neg \<longrightarrow> first_elem omegas = Inr (2 * pi * hd freqs)"
    using ne by (cases freqs) (auto simp: first_elem_def omegas_def)
  have neg_v: "neg \<longrightarrow> first_item fv = Inr (NdArray S (\<lambda>idx. item fv (0 # idx)))"
    using negN first_item_value[OF svN] by blast
  have neg_d: "neg \<longrightarrow> first_item fd = Inr (NdArray S (\<lambda>idx. item fd (0 # idx)))"
    using negN first_item_value[OF sdN] by blast
  from add_correction_value[OF s1 svN sdN negN neg_w neg_v neg_d, of False]
  obtain result2 where r2: "add_correction neg (array1 ts) (first_elem omegas) (first_item fv) (first_item fd)
        False result1 = Inr result2"
    and s2: "shape result2 = length ts # S"
    and i2: "\<And>m idx. m < length ts \<Longrightarrow> valid_index S idx \<Longrightarrow>
              item result2 (m # idx) = item result1 (m # idx) +
                (if neg
                 then - (exp (\<i> * complex_of_real (ts ! m) * complex_of_real (2 * pi * hd freqs))
                      * (\<i> * item fv (0 # idx) / complex_of_real (ts ! m)
                         - item fd (0 # idx) / complex_of_real ((ts ! m) ^ 2)))
                 else 0)"
    by auto
  from filon_sum_value[OF r sv[folded lo[unfolded N_def]] sd[folded lo[unfolded N_def]]
         ka[folded omegas_def] pp pm]
  obtain c where c: "filon_sum eps (array1 ts) omegas fv fd = Inr c" and sc: "shape c = length ts # S"
    and ic: "\<And>m idx. m < length ts \<Longrightarrow> valid_index S idx \<Longrightarrow> item c (m # idx) =
        (\<Sum>k<length omegas - 1.
           complex_of_real (omegas ! Suc k - omegas ! k)
           * exp (\<i> * complex_of_real (omegas ! k) * complex_of_real (ts ! m))
           * (item fv (k # idx) * item phi_mx (m # k # replicate r 0)
                * exp (\<i> * complex_of_real ((omegas ! Suc k - omegas ! k) * ts ! m))
              + item fv (Suc k # idx) * item phi_x (m # k # replicate r 0)
              - complex_of_real (omegas ! Suc k - omegas ! k) * item fd (k # idx)
                * item psi_mx (m # k # replicate r 0)
                * exp (\<i> * complex_of_real ((omegas ! Suc k - omegas ! k) * ts ! m))
              + complex_of_real (omegas ! Suc k - omegas ! k) * item fd (Suc k # idx)
                * item psi_x (m # k # replicate r 0)))"
    by blast
  from iadd_same_shape[of c result2] sc s2
  obtain res where res: "iadd result2 c = Inr res" and sres: "shape res = length ts # S"
    and ires: "\<And>idx. valid_index (length ts # S) idx \<Longrightarrow> item res idx = item result2 idx + item c idx"
    by auto
  have fi: "fourier_integral_fixed_sampling_pchip prim eps ts freqs fv pos neg = Inr res"
    unfolding fourier_integral_fixed_sampling_pchip_def Let_def
    by (simp only: omegas_def[symmetric] result0_def[symmetric] cp[folded omegas_def] r1 r2 c res ebind_def sum.case)
  have om: "omegas ! k = 2 * pi * freqs ! k" "omegas ! Suc k = 2 * pi * freqs ! Suc k"
    if "k < length freqs - 1" for k
    using that by (simp_all add: omegas_def)
  have val: "item res (m # idx) =
        (if pos
         then exp (\<i> * complex_of_real (ts ! m) * complex_of_real (2 * pi * last freqs))
              * (\<i> * item fv ((length freqs - 1) # idx) / complex_of_real (ts ! m)
                 - item fd ((length freqs - 1) # idx) / complex_of_real ((ts ! m) ^ 2))
         else 0)
        + (if neg
           then - (exp (\<i> * complex_of_real (ts ! m) * complex_of_real (2 * pi * hd freqs))
              * (\<i> * item fv (0 # idx) / complex_of_real (ts ! m)
                 - item fd (0 # idx) / complex_of_real ((ts ! m) ^ 2)))
           else 0)
        + (\<Sum>k<length freqs - 1.
           complex_of_real (2 * pi * freqs ! Suc k - 2 * pi * freqs ! k)
           * exp (\<i> * complex_of_real (2 * pi * freqs ! k) * complex_of_real (ts ! m))
           * (item fv (k # idx) * item phi_mx (m # k # replicate r 0)
                * exp (\<i> * complex_of_real ((2 * pi * freqs ! Suc k - 2 * pi * freqs ! k) * ts ! m))
              + item fv (Suc k # idx) * item phi_x (m # k # replicate r 0)
              - complex_of_real (2 * pi * freqs ! Suc k - 2 * pi * freqs ! k) * item fd (k # idx)
                * item psi_mx (m # k # replicate r 0)
                * exp (\<i> * complex_of_real ((2 * pi * freqs ! Suc k - 2 * pi * freqs ! k) * ts ! m))
              + complex_of_real (2 * pi * freqs ! Suc k - 2 * pi * freqs ! k) * item fd (Suc k # idx)
                * item psi_x (m # k # replicate r 0)))"
    if m: "m < length ts" and v: "valid_index S idx" for m idx
  proof -
    have "valid_index (length ts # S) (m # idx)" using m v by simp
    from ires[OF this] have "item res (m # idx) = item result2 (m # idx) + item c (m # idx)" .
    also have "item c (m # idx) = (\<Sum>k<length freqs - 1.
           complex_of_real (2 * pi * freqs ! Suc k - 2 * pi * freqs ! k)
           * exp (\<i> * complex_of_real (2 * pi * freqs ! k) * complex_of_real (ts ! m))
           * (item fv (k # idx) * item phi_mx (m # k # replicate r 0)
                * exp (\<i> * complex_of_real ((2 * pi * freqs ! Suc k - 2 * pi * freqs ! k) * ts ! m))
              + item fv (Suc k # idx) * item phi_x (m # k # replicate r 0)
              - complex_of_real (2 * pi * freqs ! Suc k - 2 * pi * freqs ! k) * item fd (k # idx)
                * item psi_mx (m # k # replicate r 0)
                * exp (\<i> * complex_of_real ((2 * pi * freqs ! Suc k - 2 * pi * freqs ! k) * ts ! m))
              + complex_of_real (2 * pi * freqs ! Suc k - 2 * pi * freqs ! k) * item fd (Suc k # idx)
                * item psi_x (m # k # replicate r 0)))"
      unfolding ic[OF m v] lo N_def
      by (rule sum.cong[OF refl]) (simp only: om lessThan_iff)
    finally show ?thesis
      unfolding i2[OF m v] i1[OF m v] N_def by simp
  qed
  from fi sres val show ?thesis by blast
qed

subsection \<open>The interpolant and the closed-form branch\<close>

lemma complex_pchip_value:
  assumes a: "prim xi (map_array Re zi) x der axis = Inr re_part"
    and b: "prim xi (map_array Im zi) x der axis = Inr im_part"
    and s: "shape im_part = shape re_part"
  shows "\<exists>res. complex_pchip prim xi zi x der axis = Inr res \<and> shape res = shape re_part \<and>
          (\<forall>idx. valid_index (shape re_part) idx \<longrightarrow>
             item res idx = complex_of_real (item re_part idx) + \<i> * complex_of_real (item im_part idx))"
proof -
  define ds where "ds = shape re_part"
  define fl where "fl = replicate (length ds) False"
  have ra: "represents re_part fl ds (item re_part)"
    unfolding fl_def represents_all_false by (simp add: ds_def)
  have rb0: "represents im_part fl ds (item im_part)"
    unfolding fl_def represents_all_false by (simp add: ds_def s)
  have rb: "represents (map_array (\<lambda>b. \<i> * complex_of_real b) im_part) fl ds
      (\<lambda>idx. \<i> * complex_of_real (item im_part idx))"
    by (rule represents_map_array[OF rb0])
  have fl2: "map2 (\<and>) fl fl = fl" by (simp add: fl_def)
  from broadcast2_represents[OF ra rb, of "\<lambda>a b. complex_of_real a + b"]
  obtain res where res: "broadcast2 (\<lambda>a b. complex_of_real a + b) re_part
         (map_array (\<lambda>b. \<i> * complex_of_real b) im_part) = Inr res"
    and rr: "represents res fl ds (\<lambda>idx. complex_of_real (item re_part idx) + \<i> * complex_of_real (item im_part idx))"
    unfolding fl2 by blast
  have "complex_pchip prim xi zi x der axis = Inr res"
    unfolding complex_pchip_def by (simp only: a b res ebind_def sum.case)
  with rr[unfolded fl_def represents_all_false] show ?thesis
    by (auto simp: ds_def)
qed

lemma place_all_true:
  "length vs = length r \<Longrightarrow> place (map (\<lambda>_. True) r) r vs = vs"
proof (induction r arbitrary: vs)
  case Nil then show ?case by simp
next
  case (Cons a r)
  then show ?case by (cases vs) auto
qed

lemma place_all_false: "place (map (\<lambda>_. False) m) r vs = r"
proof (induction m arbitrary: r)
  case Nil then show ?case by simp
next
  case (Cons a m) then show ?case by (cases r) auto
qed

lemma upt_two: "1 \<le> n \<Longrightarrow> [0..<n + 1] = 0 # 1 # [2..<n + 1]"
  using upt_conv_Cons[of 0 "n + 1"] upt_conv_Cons[of 1 "n + 1"]
  by (simp add: numeral_2_eq_2)

lemma upt_max2: "[0..<MAX_TAYLOR_ITERATIONS + 1] = 0 # 1 # [2..<MAX_TAYLOR_ITERATIONS + 1]"
  by (rule upt_two) (simp add: MAX_TAYLOR_ITERATIONS_def)

lemma phi_and_psi_flat_closed:
  assumes "\<forall>v \<in> set x. 1 \<le> \<bar>v\<bar>"
  shows "phi_and_psi_flat eps x = Inr (map phi_closed x, map psi_closed x)"
proof -
  have m: "map (\<lambda>x. \<bar>x\<bar> < 1) x = map (\<lambda>_. False) x"
    using assms by (auto simp: not_less)
  have nm: "map Not (map (\<lambda>_. False) x) = map (\<lambda>_. True) x" by simp
  have c1: "compress (map (\<lambda>_. True) x) x = x"
    using compress_map_filter[of "\<lambda>_. True" x] by simp
  have c2: "compress (map (\<lambda>_. False) x) ys = []" for ys :: "'b list"
    by (auto simp: compress_def filter_empty_conv dest!: set_zip_leftD)
  have p1: "place (map (\<lambda>_. True) x) (map (\<lambda>_. 0) x) (map f x) = map f x" for f :: "real \<Rightarrow> complex"
    using place_all_true[of "map f x" "map (\<lambda>_. 0::complex) x"] by (simp add: comp_def)
  show ?thesis
    unfolding phi_and_psi_flat_def phi_and_psi_outcome_def Let_def m nm c1 c2 p1 upt_max2
    by (simp add: kernel_pass_def phi_pass_def psi_pass_def kernel_update_def Let_def c2
          min_component_def place_all_false)
qed

subsection \<open>Statements on the correction, the interpolant and the kernels\<close>

lemma shape_array1: "shape (array1 xs) = [length xs]"
  by (simp add: array1_def)

lemma item_array1: "item (array1 xs) [i] = xs ! i"
  by (simp add: array1_def)

text \<open>
  C4.  For a \<open>times\<close> array of shape \<open>(M,)\<close>, a scalar \<open>omega_end\<close> and value and derivative
  arrays of a common trailing shape \<open>S\<close>, \<open>fourier_integral_inf_correction\<close> returns an
  array of shape \<open>(M, S)\<close> whose element at time \<open>t\<close> and trailing index \<open>idx\<close> is
  \<open>sign * exp(i t omega_end) * (i value_end[idx] / t - derivative_end[idx] / t^2)\<close>, with
  sign +1 when \<open>positive_inf\<close> holds and -1 otherwise.  The value is stated for
  \<open>t \<noteq> 0\<close>: there NumPy divides by zero, which the real numbers of the embedding do not
  model.
\<close>

theorem inf_correction_formula:
  assumes "shape times' = [M]" and "shape func_value_end = S" and "shape func_derivative_end = S"
  shows "\<exists>res. fourier_integral_inf_correction times' omega_end func_value_end func_derivative_end positive_inf
            = Inr res \<and> shape res = M # S \<and>
         (\<forall>m idx. m < M \<longrightarrow> valid_index S idx \<longrightarrow> item times' [m] \<noteq> 0 \<longrightarrow>
            item res (m # idx) =
              (if positive_inf then 1 else - 1)
              * exp (\<i> * complex_of_real (item times' [m]) * complex_of_real omega_end)
              * (\<i> * item func_value_end idx / complex_of_real (item times' [m])
                 - item func_derivative_end idx / complex_of_real ((item times' [m]) ^ 2)))"
  using inf_correction_value[OF assms, of omega_end positive_inf] by blast

theorem inf_correction_formula_witness:
  "\<exists>res. fourier_integral_inf_correction (array1 [1, 2]) 3 (array1 [\<i>, 1]) (array1 [0, 1]) False = Inr res
      \<and> shape res = [2, 2]
      \<and> item res [1, 0] = - exp (\<i> * 6) * (- 1 / 2)"
proof -
  have v: "valid_index [2] [0]" by simp
  from inf_correction_formula[of "array1 [1, 2]" 2 "array1 [\<i>, 1]" "[2]" "array1 [0, 1]" 3 False]
  obtain res where r: "fourier_integral_inf_correction (array1 [1, 2]) 3 (array1 [\<i>, 1]) (array1 [0, 1]) False = Inr res"
    and s: "shape res = [2, 2]"
    and i: "\<And>m idx. m < 2 \<Longrightarrow> valid_index [2] idx \<Longrightarrow> item (array1 [1, 2::real]) [m] \<noteq> 0 \<Longrightarrow>
            item res (m # idx) =
              (if False then 1 else - 1)
              * exp (\<i> * complex_of_real (item (array1 [1, 2]) [m]) * complex_of_real 3)
              * (\<i> * item (array1 [\<i>, 1]) idx / complex_of_real (item (array1 [1, 2]) [m])
                 - item (array1 [0, 1]) idx / complex_of_real ((item (array1 [1, 2]) [m]) ^ 2))"
    by (auto simp: array1_def)
  have "item res [1, 0] = - exp (\<i> * 6) * (- 1 / 2)"
    using i[of 1 "[0]"] by (simp add: array1_def mult.commute)
  with r s show ?thesis by blast
qed

text \<open>
  C5.  \<open>complex_pchip\<close> calls the real primitive on the real parts and on the imaginary
  parts of \<open>zi\<close>, with the same abscissae, evaluation points, derivative order and axis,
  and returns the first result plus \<open>i\<close> times the second, element by element.  With
  derivative order 1 it therefore returns the primitive's first derivatives.
\<close>

theorem complex_pchip_recombines:
  assumes "prim xi (map_array Re zi) x derivative_order axis = Inr re_part"
    and "prim xi (map_array Im zi) x derivative_order axis = Inr im_part"
    and "shape im_part = shape re_part"
  shows "\<exists>res. complex_pchip prim xi zi x derivative_order axis = Inr res \<and> shape res = shape re_part \<and>
          (\<forall>idx. valid_index (shape re_part) idx \<longrightarrow>
             item res idx = complex_of_real (item re_part idx) + \<i> * complex_of_real (item im_part idx))"
  using assms by (rule complex_pchip_value)

theorem complex_pchip_recombines_witness:
  "\<exists>res. complex_pchip secant_prim [0, 1] (array1 [\<i>, 3]) [0, 1] 1 0 = Inr res \<and> shape res = [2]
     \<and> item res [0] = 3 - \<i>"
proof -
  have "\<exists>re. secant_prim [0, 1] (map_array Re (array1 [\<i>, 3])) [0, 1] 1 0 = Inr re
          \<and> shape re = [2] \<and> item re [0] = 3"
    by (simp add: secant_prim_def array1_def map_array_def)
  then obtain re where a: "secant_prim [0, 1] (map_array Re (array1 [\<i>, 3])) [0, 1] 1 0 = Inr re"
    and sa: "shape re = [2]" and ia: "item re [0] = 3" by blast
  have "\<exists>im. secant_prim [0, 1] (map_array Im (array1 [\<i>, 3])) [0, 1] 1 0 = Inr im
          \<and> shape im = [2] \<and> item im [0] = - 1"
    by (simp add: secant_prim_def array1_def map_array_def)
  then obtain im where b: "secant_prim [0, 1] (map_array Im (array1 [\<i>, 3])) [0, 1] 1 0 = Inr im"
    and sb: "shape im = [2]" and ib: "item im [0] = - 1" by blast
  from complex_pchip_recombines[of secant_prim "[0, 1]" "array1 [\<i>, 3]" "[0, 1]" 1 0, OF a b]
  obtain res where r: "complex_pchip secant_prim [0, 1] (array1 [\<i>, 3]) [0, 1] 1 0 = Inr res"
    and s: "shape res = [2]"
    and i: "\<And>idx. valid_index [2] idx \<Longrightarrow>
             item res idx = complex_of_real (item re idx) + \<i> * complex_of_real (item im idx)"
    by (auto simp: sa sb)
  have "item res [0] = 3 - \<i>"
    using i[of "[0]"] by (simp add: ia ib)
  with r s show ?thesis by blast
qed

text \<open>
  C10.  If the argument of \<open>_phi_and_psi\<close> contains an element that is exactly 0, the call
  raises the non-convergence error: at that element the remaining-term bound is 0 and
  the imaginary part of the partial sum stays 0, so the strict test \<open>0 < 0\<close> fails in
  every pass of the loop.
\<close>

theorem phi_and_psi_zero_never_converges:
  assumes "0 \<in> set (ravel x)"
  shows "phi_and_psi rel_tolerance x =
    Inl (RuntimeError ''Phi and Psi calculation failed to converge after 1000 iterations'')"
  using phi_and_psi_flat_zero[OF assms] by (simp add: phi_and_psi_def ebind_def)

theorem phi_and_psi_zero_never_converges_witness:
  "0 \<in> set (ravel (array1 [1 / 2, 0, 3 :: real])) \<and>
   phi_and_psi (1 / 2 ^ 52) (array1 [1 / 2, 0, 3]) =
     Inl (RuntimeError ''Phi and Psi calculation failed to converge after 1000 iterations'')"
proof -
  have z: "0 \<in> set (ravel (array1 [1 / 2, 0, 3 :: real]))"
    by (simp add: ravel_def array1_def upt_rec)
  from z phi_and_psi_zero_never_converges[OF z] show ?thesis by blast
qed

text \<open>
  C2.  At the scalar argument 2.0 the Taylor subset of \<open>_lambda\<close> is empty: the
  comparison array is empty, \<open>if\<close> on it never breaks the loop (or raises, under the
  newer NumPy rules), and the call raises instead of returning the closed form.
\<close>

theorem lambda_closed_form_raises:
  "lambda_fn Legacy rel_tolerance (NdArray [] (\<lambda>_. 2)) =
     Inl (RuntimeError ''Lambda calculation failed to converge after 1000 iterations'') \<and>
   lambda_fn Strict rel_tolerance (NdArray [] (\<lambda>_. 2)) =
     Inl (ValueError ''The truth value of an empty array is ambiguous'')"
proof -
  have r: "ravel (NdArray [] (\<lambda>_. 2::real)) = [2]" by (simp add: ravel_def)
  have f: "filter (\<lambda>x. \<bar>x\<bar> < 1) [2::real] = []" by simp
  show ?thesis
    unfolding lambda_fn_def r
    by (simp add: lambda_flat_no_taylor_legacy[OF f] lambda_flat_no_taylor_strict[OF f] ebind_def)
qed

text \<open>
  C3.  On the batch \<open>[0.5, 0.25, 2.0]\<close> the Taylor subset of \<open>_lambda\<close> has two elements and
  \<open>if\<close> on the two-element comparison array raises \<open>ValueError\<close> in the first pass.
\<close>

theorem lambda_batch_raises:
  "lambda_fn rules rel_tolerance (array1 [1 / 2, 1 / 4, 2]) =
     Inl (ValueError ''The truth value of an array with more than one element is ambiguous'')"
proof -
  have r: "ravel (array1 [1 / 2, 1 / 4, 2 :: real]) = [1 / 2, 1 / 4, 2]"
    by (simp add: ravel_def array1_def upt_rec)
  have f: "2 \<le> length (filter (\<lambda>x. \<bar>x\<bar> < 1) [1 / 2, 1 / 4, 2 :: real])" by simp
  show ?thesis
    unfolding lambda_fn_def r
    by (simp add: lambda_flat_many_taylor[OF f] ebind_def)
qed

subsection \<open>The base integral\<close>

lemma represents_item_zero:
  assumes rx: "represents x (False # False # replicate r True) (M # K # S) g"
    and "length S = r" "m < M" "k < K" "valid_index S idx"
  shows "item x (m # k # replicate r 0) = g (m # k # idx)"
proof -
  have "valid_index (M # K # S) (m # k # idx)" using assms by simp
  from representsD[OF rx this] show ?thesis
    using assms valid_index_length[of S idx] by (simp add: stored_idx_all_true)
qed

text \<open>
  C1.  With both correction flags off, \<open>fourier_integral_fixed_sampling_pchip\<close> returns,
  for every time \<open>t\<close> and trailing index, the sum over the \<open>N - 1\<close> sub-intervals \<open>k\<close> of
  \<open>dw * exp(i w t) * [f_lo * Phi(-x) * exp(i x) + f_hi * Phi(x)
     - dw * d_lo * Psi(-x) * exp(i x) + dw * d_hi * Psi(x)]\<close>
  with \<open>dw\<close> the angular-frequency step of the sub-interval, \<open>w\<close> its lower node and
  \<open>x = dw * t\<close>, where \<open>f_lo, f_hi\<close> are the samples at its two nodes, \<open>d_lo, d_hi\<close> the
  derivatives returned by \<open>complex_pchip\<close> there, and Phi, Psi the arrays returned by the
  two kernel calls on \<open>x\<close> and \<open>-x\<close>.  The hypotheses say that the interpolation and
  the two kernel calls return.
\<close>

theorem base_integral_sub_interval_sum:
  fixes times_list frequencies :: "real list"
  assumes "length S = r" and "shape func_values = length frequencies # S"
    and "complex_pchip prim (map (\<lambda>f. 2 * pi * f) frequencies) func_values
           (map (\<lambda>f. 2 * pi * f) frequencies) 1 0 = Inr func_derivatives"
    and "shape func_derivatives = length frequencies # S"
    and "kernel_argument (array1 times_list) (map (\<lambda>f. 2 * pi * f) frequencies) (Suc (Suc r))
           = Inr (delta_omegas, exp_omegas, x)"
    and "phi_and_psi rel_tolerance x = Inr (phi_x, psi_x)"
    and "phi_and_psi rel_tolerance (map_array uminus x) = Inr (phi_minus_x, psi_minus_x)"
  shows "\<exists>res. fourier_integral_fixed_sampling_pchip prim rel_tolerance times_list frequencies
                  func_values False False = Inr res \<and>
     shape res = length times_list # S \<and>
     (\<forall>m idx. m < length times_list \<longrightarrow> valid_index S idx \<longrightarrow>
        (\<forall>k<length frequencies - 1.
           item x (m # k # replicate r 0)
             = (2 * pi * frequencies ! Suc k - 2 * pi * frequencies ! k) * times_list ! m) \<and>
        item res (m # idx) =
          (\<Sum>k<length frequencies - 1.
             spec_sub_interval (2 * pi * frequencies ! Suc k - 2 * pi * frequencies ! k)
               (2 * pi * frequencies ! k) (times_list ! m)
               (item func_values (k # idx)) (item func_values (Suc k # idx))
               (item func_derivatives (k # idx)) (item func_derivatives (Suc k # idx))
               (item phi_minus_x (m # k # replicate r 0)) (item phi_x (m # k # replicate r 0))
               (item psi_minus_x (m # k # replicate r 0)) (item psi_x (m # k # replicate r 0))))"
proof -
  let ?omegas = "map (\<lambda>f. 2 * pi * f) frequencies"
  from fourier_integral_value[OF assms(1,2,3,4) _ assms(5,6,7), of False False]
  obtain res where r: "fourier_integral_fixed_sampling_pchip prim rel_tolerance times_list frequencies
                  func_values False False = Inr res"
    and s: "shape res = length times_list # S"
    and i: "\<And>m idx. m < length times_list \<Longrightarrow> valid_index S idx \<Longrightarrow> item res (m # idx) =
          (\<Sum>k<length frequencies - 1.
             spec_sub_interval (2 * pi * frequencies ! Suc k - 2 * pi * frequencies ! k)
               (2 * pi * frequencies ! k) (times_list ! m)
               (item func_values (k # idx)) (item func_values (Suc k # idx))
               (item func_derivatives (k # idx)) (item func_derivatives (Suc k # idx))
               (item phi_minus_x (m # k # replicate r 0)) (item phi_x (m # k # replicate r 0))
               (item psi_minus_x (m # k # replicate r 0)) (item psi_x (m # k # replicate r 0)))"
    by (auto simp: spec_sub_interval_def Let_def)
  from kernel_argument_represents[OF assms(1), of times_list ?omegas] assms(5)
  have rx: "represents x (False # False # replicate r True)
        (length times_list # (length ?omegas - 1) # S)
        (\<lambda>idx. (?omegas ! Suc (idx ! 1) - ?omegas ! (idx ! 1)) * times_list ! hd idx)"
    by auto
  have xv: "item x (m # k # replicate r 0)
             = (2 * pi * frequencies ! Suc k - 2 * pi * frequencies ! k) * times_list ! m"
    if "m < length times_list" "valid_index S idx" "k < length frequencies - 1" for m k idx
    using represents_item_zero[OF rx assms(1) that(1) _ that(2), of k] that(3) by simp
  from r s i xv show ?thesis by blast
qed

lemma phi_and_psi_closed:
  assumes "\<forall>v \<in> set (ravel x). 1 \<le> \<bar>v\<bar>"
  shows "phi_and_psi eps x = Inr (unravel (shape x) (map phi_closed (ravel x)),
                                  unravel (shape x) (map psi_closed (ravel x)))"
  by (simp add: phi_and_psi_def phi_and_psi_flat_closed[OF assms] ebind_def)

lemma ravel_map_array: "ravel (map_array f a) = map f (ravel a)"
  by (simp add: ravel_def map_array_def)

theorem base_integral_sub_interval_sum_witness:
  "\<exists>res. fourier_integral_fixed_sampling_pchip secant_prim (1 / 2 ^ 52) [1] [0, 1] (array1 [1, \<i>])
            False False = Inr res \<and> shape res = [1] \<and>
     item res [0]
       = spec_sub_interval (2 * pi) 0 1 1 \<i> ((\<i> - 1) / (2 * pi)) ((\<i> - 1) / (2 * pi))
           (phi_closed (- (2 * pi))) (phi_closed (2 * pi)) (psi_closed (- (2 * pi))) (psi_closed (2 * pi))"
proof -
  let ?om = "map (\<lambda>f. 2 * pi * f) [0, 1 :: real]"
  let ?fv = "array1 [1, \<i>]"
  have "\<exists>re. secant_prim ?om (map_array Re ?fv) ?om 1 0 = Inr re
          \<and> shape re = [2] \<and> item re [0] = - 1 / (2 * pi) \<and> item re [Suc 0] = - 1 / (2 * pi)"
    by (simp add: secant_prim_def array1_def map_array_def)
  then obtain re where a: "secant_prim ?om (map_array Re ?fv) ?om 1 0 = Inr re"
    and sa: "shape re = [2]" and ia: "item re [0] = - 1 / (2 * pi)" "item re [Suc 0] = - 1 / (2 * pi)"
    by blast
  have "\<exists>im. secant_prim ?om (map_array Im ?fv) ?om 1 0 = Inr im
          \<and> shape im = [2] \<and> item im [0] = 1 / (2 * pi) \<and> item im [Suc 0] = 1 / (2 * pi)"
    by (simp add: secant_prim_def array1_def map_array_def)
  then obtain im where b: "secant_prim ?om (map_array Im ?fv) ?om 1 0 = Inr im"
    and sb: "shape im = [2]" and ib: "item im [0] = 1 / (2 * pi)" "item im [Suc 0] = 1 / (2 * pi)"
    by blast
  from complex_pchip_value[of secant_prim ?om ?fv ?om 1 0, OF a b]
  obtain fd where fd: "complex_pchip secant_prim ?om ?fv ?om 1 0 = Inr fd" and sfd: "shape fd = [2]"
    and ifd: "\<And>idx. valid_index [2] idx \<Longrightarrow>
             item fd idx = complex_of_real (item re idx) + \<i> * complex_of_real (item im idx)"
    by (auto simp: sa sb)
  from kernel_argument_represents[of "[]" 0 "[1]" ?om]
  obtain delta eo x where ka: "kernel_argument (array1 [1]) ?om (Suc (Suc 0)) = Inr (delta, eo, x)"
    and rx: "represents x (False # False # replicate 0 True) (length [1::real] # (length ?om - 1) # [])
        (\<lambda>idx. (?om ! Suc (idx ! 1) - ?om ! (idx ! 1)) * [1] ! hd idx)"
    by auto
  have sx: "shape x = [1, 1]" using represents_shape[OF rx] by simp
  have ix: "item x [0, 0] = 2 * pi"
    using representsD[OF rx, of "[0, 0]"] by simp
  have rvx: "ravel x = [2 * pi]" by (simp add: ravel_def sx ix)
  have big: "1 \<le> \<bar>2 * pi\<bar>" using pi_ge_two by simp
  have pp: "phi_and_psi (1 / 2 ^ 52) x
      = Inr (unravel [1, 1] [phi_closed (2 * pi)], unravel [1, 1] [psi_closed (2 * pi)])"
    using phi_and_psi_closed[of x "1 / 2 ^ 52"] big by (simp add: rvx sx)
  have pm: "phi_and_psi (1 / 2 ^ 52) (map_array uminus x)
      = Inr (unravel [1, 1] [phi_closed (- (2 * pi))], unravel [1, 1] [psi_closed (- (2 * pi))])"
    using phi_and_psi_closed[of "map_array uminus x" "1 / 2 ^ 52"] big
    by (simp add: ravel_map_array rvx sx)
  from base_integral_sub_interval_sum[of "[]" 0 ?fv "[0, 1]" secant_prim fd "[1]" delta eo x
         "1 / 2 ^ 52", OF _ _ fd _ ka pp pm]
  obtain res where r: "fourier_integral_fixed_sampling_pchip secant_prim (1 / 2 ^ 52) [1] [0, 1] ?fv
            False False = Inr res" and s: "shape res = [1]"
    and i: "item res [0] =
          (\<Sum>k<length [0, 1::real] - 1.
             spec_sub_interval (2 * pi * [0, 1] ! Suc k - 2 * pi * [0, 1] ! k)
               (2 * pi * [0, 1] ! k) ([1] ! 0)
               (item ?fv (k # [])) (item ?fv (Suc k # []))
               (item fd (k # [])) (item fd (Suc k # []))
               (item (unravel [1, 1] [phi_closed (- (2 * pi))]) (0 # k # replicate 0 0))
               (item (unravel [1, 1] [phi_closed (2 * pi)]) (0 # k # replicate 0 0))
               (item (unravel [1, 1] [psi_closed (- (2 * pi))]) (0 # k # replicate 0 0))
               (item (unravel [1, 1] [psi_closed (2 * pi)]) (0 # k # replicate 0 0)))"
    by (auto simp: shape_array1 sfd)
  have d0: "item fd [0] = (\<i> - 1) / (2 * pi)" and d1: "item fd [Suc 0] = (\<i> - 1) / (2 * pi)"
    using ifd[of "[0]"] ifd[of "[1]"] by (simp_all add: ia ib field_simps)
  have "item res [0]
       = spec_sub_interval (2 * pi) 0 1 1 \<i> ((\<i> - 1) / (2 * pi)) ((\<i> - 1) / (2 * pi))
           (phi_closed (- (2 * pi))) (phi_closed (2 * pi)) (psi_closed (- (2 * pi))) (psi_closed (2 * pi))"
    unfolding i by (simp add: d0 d1 array1_def unravel_def)
  with r s show ?thesis by blast
qed

subsection \<open>Trailing axes\<close>

lemma ebind_Inr_iff: "ebind m f = Inr y \<longleftrightarrow> (\<exists>x. m = Inr x \<and> f x = Inr y)"
  by (cases m) (simp_all add: ebind_def)

lemma filon_sum_returns:
  assumes "filon_sum eps ta omegas fv fd = Inr c"
  shows "\<exists>delta eo x phi_x psi_x phi_mx psi_mx.
           kernel_argument ta omegas (Suc (length (shape fv))) = Inr (delta, eo, x) \<and>
           phi_and_psi eps x = Inr (phi_x, psi_x) \<and>
           phi_and_psi eps (map_array uminus x) = Inr (phi_mx, psi_mx)"
proof -
  have l: "length (shape (expand_first fv)) = Suc (length (shape fv))" by (simp add: expand_first_def)
  from assms show ?thesis
    unfolding filon_sum_def Let_def l
    by (auto simp: ebind_Inr_iff split: prod.splits)
qed

lemma add_correction_returns_last:
  assumes "add_correction True ta (last_elem oms) v d p r = Inr r1"
  shows "oms \<noteq> []"
  using assms by (auto simp: add_correction_def ebind_def last_elem_def)

lemma add_correction_returns_first:
  assumes "add_correction True ta (first_elem oms) v d p r = Inr r1"
  shows "oms \<noteq> []"
  using assms by (auto simp: add_correction_def ebind_def first_elem_def)

lemma fourier_integral_returns:
  assumes "fourier_integral_fixed_sampling_pchip prim eps ts freqs fv pos neg = Inr res"
    and "complex_pchip prim (map (\<lambda>f. 2 * pi * f) freqs) fv (map (\<lambda>f. 2 * pi * f) freqs) 1 0 = Inr fd"
  shows "(pos \<or> neg \<longrightarrow> freqs \<noteq> []) \<and>
         (\<exists>delta eo x phi_x psi_x phi_mx psi_mx.
           kernel_argument (array1 ts) (map (\<lambda>f. 2 * pi * f) freqs) (Suc (length (shape fv)))
             = Inr (delta, eo, x) \<and>
           phi_and_psi eps x = Inr (phi_x, psi_x) \<and>
           phi_and_psi eps (map_array uminus x) = Inr (phi_mx, psi_mx))"
proof -
  let ?om = "map (\<lambda>f. 2 * pi * f) freqs"
  let ?r0 = "NdArray (length ts # tl (shape fv)) (\<lambda>_. 0 :: complex)"
  from assms obtain r1 r2 c where
    1: "add_correction pos (array1 ts) (last_elem ?om) (last_item fv) (last_item fd) True ?r0 = Inr r1"
    and 2: "add_correction neg (array1 ts) (first_elem ?om) (first_item fv) (first_item fd) False r1 = Inr r2"
    and 3: "filon_sum eps (array1 ts) ?om fv fd = Inr c"
    unfolding fourier_integral_fixed_sampling_pchip_def Let_def
    by (auto simp: ebind_Inr_iff)
  have "pos \<longrightarrow> freqs \<noteq> []" using add_correction_returns_last[of "array1 ts" ?om] 1 by auto
  moreover have "neg \<longrightarrow> freqs \<noteq> []" using add_correction_returns_first[of "array1 ts" ?om] 2 by auto
  ultimately show ?thesis using filon_sum_returns[OF 3] by blast
qed

lemma set_indices: "set (indices s) = {idx. valid_index s idx}"
proof (induction s)
  case Nil then show ?case by auto
next
  case (Cons n s)
  show ?case
  proof (intro set_eqI iffI)
    fix idx assume "idx \<in> set (indices (n # s))"
    then show "idx \<in> {idx. valid_index (n # s) idx}" using Cons by auto
  next
    fix idx assume "idx \<in> {idx. valid_index (n # s) idx}"
    then obtain i r where "idx = i # r" "i < n" "valid_index s r"
      by (auto simp: valid_index_Cons_iff)
    then show "idx \<in> set (indices (n # s))" using Cons by auto
  qed
qed

lemma indices_snoc_one: "indices (s @ [1]) = map (\<lambda>i. i @ [0]) (indices s)"
proof (induction s)
  case Nil then show ?case by simp
next
  case (Cons n s)
  then show ?case by (simp add: map_concat comp_def)
qed

lemma indices_two_ones: "indices [M, K, 1, 1] = map (\<lambda>i. i @ [0, 0]) (indices [M, K])"
proof -
  have "indices (([M, K] @ [1]) @ [1]) = map (\<lambda>i. i @ [0]) (map (\<lambda>i. i @ [0]) (indices [M, K]))"
    by (simp only: indices_snoc_one)
  then show ?thesis by (simp add: comp_def)
qed

lemma ravel_matrix_kernel_argument:
  assumes r4: "represents x4 [False, False, True, True] [M, K, 2, 2] g4"
    and r2: "represents x2 [False, False] [M, K] g2"
    and g: "\<And>m k. m < M \<Longrightarrow> k < K \<Longrightarrow> g4 [m, k, 0, 0] = g2 [m, k]"
  shows "ravel x4 = ravel x2"
proof -
  have s4: "shape x4 = [M, K, 1, 1]" and s2: "shape x2 = [M, K]"
    using represents_shape[OF r4] represents_shape[OF r2] by simp_all
  have "item x4 (i @ [0, 0]) = item x2 i" if "i \<in> set (indices [M, K])" for i
  proof -
    from that have "i \<in> {idx. valid_index [M, K] idx}" by (simp only: set_indices)
    then have "valid_index [M, K] i" by simp
    then obtain m k where i: "i = [m, k]" and mk: "m < M" "k < K"
      by (auto simp: valid_index_Cons_iff)
    have "item x4 [m, k, 0, 0] = g4 [m, k, 0, 0]"
      using representsD[OF r4, of "[m, k, 0, 0]"] mk by simp
    moreover have "item x2 [m, k] = g2 [m, k]"
      using representsD[OF r2, of "[m, k]"] mk by simp
    ultimately show ?thesis using g[OF mk] by (simp add: i)
  qed
  then show ?thesis
    unfolding ravel_def s4 s2 indices_two_ones by (simp add: comp_def)
qed

lemma item_unravel_two_ones:
  "item (unravel [M, K, 1, 1] p) [m, k, 0, 0] = item (unravel [M, K] p) [m, k]"
  by (simp add: unravel_def)

lemma phi_and_psi_same_ravel:
  assumes "phi_and_psi eps x2 = Inr (p2, q2)" and "ravel x4 = ravel x2"
  shows "\<exists>p q. phi_and_psi_flat eps (ravel x2) = Inr (p, q) \<and>
            p2 = unravel (shape x2) p \<and> q2 = unravel (shape x2) q \<and>
            phi_and_psi eps x4 = Inr (unravel (shape x4) p, unravel (shape x4) q)"
  using assms by (auto simp: phi_and_psi_def ebind_Inr_iff)

text \<open>
  C9.  Let the samples have trailing shape \<open>(2, 2)\<close> and be a scalar sample array \<open>g\<close> times
  a real constant matrix \<open>c\<close>, and let the interpolant's derivatives be scaled the same
  way (as a primitive that works column by column and is homogeneous delivers them).
  Whenever the scalar call returns, the call on the matrix samples returns an array of
  shape \<open>(M, 2, 2)\<close> whose \<open>(i, j)\<close> sub-array is the scalar result times \<open>c i j\<close>.
\<close>

theorem trailing_matrix_scales_scalar_case:
  fixes times_list frequencies :: "real list" and c :: "nat \<Rightarrow> nat \<Rightarrow> real"
  assumes sg: "shape g = [length frequencies]"
    and sf: "shape func_values = [length frequencies, 2, 2]"
    and fvc: "\<forall>k<length frequencies. \<forall>i<2. \<forall>j<2.
               item func_values [k, i, j] = complex_of_real (c i j) * item g [k]"
    and cpg: "complex_pchip prim (map (\<lambda>f. 2 * pi * f) frequencies) g
               (map (\<lambda>f. 2 * pi * f) frequencies) 1 0 = Inr gd"
    and sgd: "shape gd = [length frequencies]"
    and cpf: "complex_pchip prim (map (\<lambda>f. 2 * pi * f) frequencies) func_values
               (map (\<lambda>f. 2 * pi * f) frequencies) 1 0 = Inr fd"
    and sfd: "shape fd = [length frequencies, 2, 2]"
    and fdc: "\<forall>k<length frequencies. \<forall>i<2. \<forall>j<2.
               item fd [k, i, j] = complex_of_real (c i j) * item gd [k]"
    and call: "fourier_integral_fixed_sampling_pchip prim rel_tolerance times_list frequencies g
                 pos_inf_correction_term neg_inf_correction_term = Inr rs"
  shows "\<exists>res. fourier_integral_fixed_sampling_pchip prim rel_tolerance times_list frequencies
                 func_values pos_inf_correction_term neg_inf_correction_term = Inr res \<and>
           shape res = [length times_list, 2, 2] \<and>
           (\<forall>m<length times_list. \<forall>i<2. \<forall>j<2.
              item res [m, i, j] = complex_of_real (c i j) * item rs [m])"
proof -
  define om where "om = map (\<lambda>f. 2 * pi * f) frequencies"
  define M where "M = length times_list"
  define K where "K = length frequencies - 1"
  note cpg' = cpg[folded om_def] and cpf' = cpf[folded om_def]
  have lom: "length om = length frequencies" by (simp add: om_def)
  from fourier_integral_returns[OF call cpg]
  obtain delta2 eo2 x2 phi2 psi2 phim2 psim2 where
    ne: "pos_inf_correction_term \<or> neg_inf_correction_term \<longrightarrow> frequencies \<noteq> []"
    and ka2: "kernel_argument (array1 times_list) om (Suc (Suc 0)) = Inr (delta2, eo2, x2)"
    and pp2: "phi_and_psi rel_tolerance x2 = Inr (phi2, psi2)"
    and pm2: "phi_and_psi rel_tolerance (map_array uminus x2) = Inr (phim2, psim2)"
    unfolding om_def[symmetric] by (auto simp: sg)
  from kernel_argument_represents[of "[]" 0 times_list om] ka2
  have rx2: "represents x2 [False, False] [M, K]
      (\<lambda>idx. (om ! Suc (idx ! 1) - om ! (idx ! 1)) * times_list ! hd idx)"
    by (auto simp: M_def K_def lom)
  from kernel_argument_represents[of "[2, 2]" 2 times_list om]
  obtain delta4 eo4 x4 where
    ka4: "kernel_argument (array1 times_list) om (Suc (Suc 2)) = Inr (delta4, eo4, x4)"
    and rx4: "represents x4 [False, False, True, True] [M, K, 2, 2]
      (\<lambda>idx. (om ! Suc (idx ! 1) - om ! (idx ! 1)) * times_list ! hd idx)"
    by (auto simp: M_def K_def lom numeral_2_eq_2)
  have sx2: "shape x2 = [M, K]" and sx4: "shape x4 = [M, K, 1, 1]"
    using represents_shape[OF rx2] represents_shape[OF rx4] by simp_all
  have rv: "ravel x4 = ravel x2"
    by (rule ravel_matrix_kernel_argument[OF rx4 rx2]) simp
  have rvm: "ravel (map_array uminus x4) = ravel (map_array uminus x2)"
    by (simp add: ravel_map_array rv)
  from phi_and_psi_same_ravel[OF pp2 rv]
  obtain p q where phi2: "phi2 = unravel [M, K] p" and psi2: "psi2 = unravel [M, K] q"
    and pp4: "phi_and_psi rel_tolerance x4 = Inr (unravel [M, K, 1, 1] p, unravel [M, K, 1, 1] q)"
    by (auto simp: sx2 sx4)
  from phi_and_psi_same_ravel[OF pm2 rvm]
  obtain pm qm where phim2: "phim2 = unravel [M, K] pm" and psim2: "psim2 = unravel [M, K] qm"
    and pm4: "phi_and_psi rel_tolerance (map_array uminus x4)
                = Inr (unravel [M, K, 1, 1] pm, unravel [M, K, 1, 1] qm)"
    by (auto simp: sx2 sx4)
  from fourier_integral_value[of "[]" 0 g frequencies prim gd, OF _ _ cpg _ ne ka2[unfolded om_def] pp2 pm2]
    call sg sgd
  have vs: "\<And>m. m < length times_list \<Longrightarrow> item rs [m] =
        (if pos_inf_correction_term
         then exp (\<i> * complex_of_real (times_list ! m) * complex_of_real (2 * pi * last frequencies))
              * (\<i> * item g [length frequencies - 1] / complex_of_real (times_list ! m)
                 - item gd [length frequencies - 1] / complex_of_real ((times_list ! m) ^ 2))
         else 0)
        + (if neg_inf_correction_term
           then - (exp (\<i> * complex_of_real (times_list ! m) * complex_of_real (2 * pi * hd frequencies))
              * (\<i> * item g [0] / complex_of_real (times_list ! m)
                 - item gd [0] / complex_of_real ((times_list ! m) ^ 2)))
           else 0)
        + (\<Sum>k<length frequencies - 1.
           complex_of_real (2 * pi * frequencies ! Suc k - 2 * pi * frequencies ! k)
           * exp (\<i> * complex_of_real (2 * pi * frequencies ! k) * complex_of_real (times_list ! m))
           * (item g [k] * item phim2 [m, k]
                * exp (\<i> * complex_of_real ((2 * pi * frequencies ! Suc k - 2 * pi * frequencies ! k) * times_list ! m))
              + item g [Suc k] * item phi2 [m, k]
              - complex_of_real (2 * pi * frequencies ! Suc k - 2 * pi * frequencies ! k) * item gd [k]
                * item psim2 [m, k]
                * exp (\<i> * complex_of_real ((2 * pi * frequencies ! Suc k - 2 * pi * frequencies ! k) * times_list ! m))
              + complex_of_real (2 * pi * frequencies ! Suc k - 2 * pi * frequencies ! k) * item gd [Suc k]
                * item psi2 [m, k]))"
    by auto
  from fourier_integral_value[of "[2, 2]" 2 func_values frequencies prim fd, OF _ _ cpf _ ne
         ka4[unfolded om_def] pp4 pm4] sf sfd
  obtain res where
    r: "fourier_integral_fixed_sampling_pchip prim rel_tolerance times_list frequencies
                 func_values pos_inf_correction_term neg_inf_correction_term = Inr res"
    and sr: "shape res = [length times_list, 2, 2]"
    and vr: "\<And>m idx. m < length times_list \<Longrightarrow> valid_index [2, 2] idx \<Longrightarrow> item res (m # idx) =
        (if pos_inf_correction_term
         then exp (\<i> * complex_of_real (times_list ! m) * complex_of_real (2 * pi * last frequencies))
              * (\<i> * item func_values ((length frequencies - 1) # idx) / complex_of_real (times_list ! m)
                 - item fd ((length frequencies - 1) # idx) / complex_of_real ((times_list ! m) ^ 2))
         else 0)
        + (if neg_inf_correction_term
           then - (exp (\<i> * complex_of_real (times_list ! m) * complex_of_real (2 * pi * hd frequencies))
              * (\<i> * item func_values (0 # idx) / complex_of_real (times_list ! m)
                 - item fd (0 # idx) / complex_of_real ((times_list ! m) ^ 2)))
           else 0)
        + (\<Sum>k<length frequencies - 1.
           complex_of_real (2 * pi * frequencies ! Suc k - 2 * pi * frequencies ! k)
           * exp (\<i> * complex_of_real (2 * pi * frequencies ! k) * complex_of_real (times_list ! m))
           * (item func_values (k # idx) * item (unravel [M, K, 1, 1] pm) (m # k # replicate 2 0)
                * exp (\<i> * complex_of_real ((2 * pi * frequencies ! Suc k - 2 * pi * frequencies ! k) * times_list ! m))
              + item func_values (Suc k # idx) * item (unravel [M, K, 1, 1] p) (m # k # replicate 2 0)
              - complex_of_real (2 * pi * frequencies ! Suc k - 2 * pi * frequencies ! k) * item fd (k # idx)
                * item (unravel [M, K, 1, 1] qm) (m # k # replicate 2 0)
                * exp (\<i> * complex_of_real ((2 * pi * frequencies ! Suc k - 2 * pi * frequencies ! k) * times_list ! m))
              + complex_of_real (2 * pi * frequencies ! Suc k - 2 * pi * frequencies ! k) * item fd (Suc k # idx)
                * item (unravel [M, K, 1, 1] q) (m # k # replicate 2 0)))"
    by auto
  have rep2: "replicate 2 (0::nat) = [0, 0]" by (simp add: numeral_2_eq_2)
  have val: "item res [m, i, j] = complex_of_real (c i j) * item rs [m]"
    if m: "m < length times_list" and i: "i < 2" and j: "j < 2" for m i j
  proof -
    have v: "valid_index [2, 2] [i, j]" using i j by simp
    have f: "item func_values [k, i, j] = complex_of_real (c i j) * item g [k]"
      and d: "item fd [k, i, j] = complex_of_real (c i j) * item gd [k]"
      if "k < length frequencies" for k
      using fvc fdc that i j by auto
    have n0: "0 < length frequencies" if "pos_inf_correction_term \<or> neg_inf_correction_term"
      using ne that by auto
    have pos_part:
      "(if pos_inf_correction_term
         then exp (\<i> * complex_of_real (times_list ! m) * complex_of_real (2 * pi * last frequencies))
              * (\<i> * item func_values [length frequencies - 1, i, j] / complex_of_real (times_list ! m)
                 - item fd [length frequencies - 1, i, j] / complex_of_real ((times_list ! m) ^ 2))
         else 0)
       = complex_of_real (c i j) * (if pos_inf_correction_term
         then exp (\<i> * complex_of_real (times_list ! m) * complex_of_real (2 * pi * last frequencies))
              * (\<i> * item g [length frequencies - 1] / complex_of_real (times_list ! m)
                 - item gd [length frequencies - 1] / complex_of_real ((times_list ! m) ^ 2))
         else 0)"
    proof (cases pos_inf_correction_term)
      case True
      then have "length frequencies - 1 < length frequencies" using n0 by simp
      from f[OF this] d[OF this] True show ?thesis by (simp add: algebra_simps diff_divide_distrib)
    qed simp
    have neg_part:
      "(if neg_inf_correction_term
           then - (exp (\<i> * complex_of_real (times_list ! m) * complex_of_real (2 * pi * hd frequencies))
              * (\<i> * item func_values [0, i, j] / complex_of_real (times_list ! m)
                 - item fd [0, i, j] / complex_of_real ((times_list ! m) ^ 2)))
           else 0)
       = complex_of_real (c i j) * (if neg_inf_correction_term
           then - (exp (\<i> * complex_of_real (times_list ! m) * complex_of_real (2 * pi * hd frequencies))
              * (\<i> * item g [0] / complex_of_real (times_list ! m)
                 - item gd [0] / complex_of_real ((times_list ! m) ^ 2)))
           else 0)"
    proof (cases neg_inf_correction_term)
      case True
      then have "0 < length frequencies" using n0 by simp
      from f[OF this] d[OF this] True show ?thesis by (simp add: algebra_simps diff_divide_distrib)
    qed simp
    have sum_part:
      "(\<Sum>k<length frequencies - 1.
           complex_of_real (2 * pi * frequencies ! Suc k - 2 * pi * frequencies ! k)
           * exp (\<i> * complex_of_real (2 * pi * frequencies ! k) * complex_of_real (times_list ! m))
           * (item func_values [k, i, j] * item (unravel [M, K, 1, 1] pm) [m, k, 0, 0]
                * exp (\<i> * complex_of_real ((2 * pi * frequencies ! Suc k - 2 * pi * frequencies ! k) * times_list ! m))
              + item func_values [Suc k, i, j] * item (unravel [M, K, 1, 1] p) [m, k, 0, 0]
              - complex_of_real (2 * pi * frequencies ! Suc k - 2 * pi * frequencies ! k) * item fd [k, i, j]
                * item (unravel [M, K, 1, 1] qm) [m, k, 0, 0]
                * exp (\<i> * complex_of_real ((2 * pi * frequencies ! Suc k - 2 * pi * frequencies ! k) * times_list ! m))
              + complex_of_real (2 * pi * frequencies ! Suc k - 2 * pi * frequencies ! k) * item fd [Suc k, i, j]
                * item (unravel [M, K, 1, 1] q) [m, k, 0, 0]))
       = complex_of_real (c i j) * (\<Sum>k<length frequencies - 1.
           complex_of_real (2 * pi * frequencies ! Suc k - 2 * pi * frequencies ! k)
           * exp (\<i> * complex_of_real (2 * pi * frequencies ! k) * complex_of_real (times_list ! m))
           * (item g [k] * item phim2 [m, k]
                * exp (\<i> * complex_of_real ((2 * pi * frequencies ! Suc k - 2 * pi * frequencies ! k) * times_list ! m))
              + item g [Suc k] * item phi2 [m, k]
              - complex_of_real (2 * pi * frequencies ! Suc k - 2 * pi * frequencies ! k) * item gd [k]
                * item psim2 [m, k]
                * exp (\<i> * complex_of_real ((2 * pi * frequencies ! Suc k - 2 * pi * frequencies ! k) * times_list ! m))
              + complex_of_real (2 * pi * frequencies ! Suc k - 2 * pi * frequencies ! k) * item gd [Suc k]
                * item psi2 [m, k]))"
      unfolding sum_distrib_left
    proof (rule sum.cong[OF refl])
      fix k assume "k \<in> {..<length frequencies - 1}"
      then have k: "k < length frequencies" "Suc k < length frequencies" by auto
      show "complex_of_real (2 * pi * frequencies ! Suc k - 2 * pi * frequencies ! k)
           * exp (\<i> * complex_of_real (2 * pi * frequencies ! k) * complex_of_real (times_list ! m))
           * (item func_values [k, i, j] * item (unravel [M, K, 1, 1] pm) [m, k, 0, 0]
                * exp (\<i> * complex_of_real ((2 * pi * frequencies ! Suc k - 2 * pi * frequencies ! k) * times_list ! m))
              + item func_values [Suc k, i, j] * item (unravel [M, K, 1, 1] p) [m, k, 0, 0]
              - complex_of_real (2 * pi * frequencies ! Suc k - 2 * pi * frequencies ! k) * item fd [k, i, j]
                * item (unravel [M, K, 1, 1] qm) [m, k, 0, 0]
                * exp (\<i> * complex_of_real ((2 * pi * frequencies ! Suc k - 2 * pi * frequencies ! k) * times_list ! m))
              + complex_of_real (2 * pi * frequencies ! Suc k - 2 * pi * frequencies ! k) * item fd [Suc k, i, j]
                * item (unravel [M, K, 1, 1] q) [m, k, 0, 0])
          = complex_of_real (c i j) * (
           complex_of_real (2 * pi * frequencies ! Suc k - 2 * pi * frequencies ! k)
           * exp (\<i> * complex_of_real (2 * pi * frequencies ! k) * complex_of_real (times_list ! m))
           * (item g [k] * item phim2 [m, k]
                * exp (\<i> * complex_of_real ((2 * pi * frequencies ! Suc k - 2 * pi * frequencies ! k) * times_list ! m))
              + item g [Suc k] * item phi2 [m, k]
              - complex_of_real (2 * pi * frequencies ! Suc k - 2 * pi * frequencies ! k) * item gd [k]
                * item psim2 [m, k]
                * exp (\<i> * complex_of_real ((2 * pi * frequencies ! Suc k - 2 * pi * frequencies ! k) * times_list ! m))
              + complex_of_real (2 * pi * frequencies ! Suc k - 2 * pi * frequencies ! k) * item gd [Suc k]
                * item psi2 [m, k]))"
        unfolding f[OF k(1)] f[OF k(2)] d[OF k(1)] d[OF k(2)] item_unravel_two_ones
          phi2 psi2 phim2 psim2
        by (simp only: algebra_simps)
    qed
    show ?thesis
      unfolding vr[OF m v] vs[OF m] rep2 pos_part neg_part sum_part
      by (simp only: distrib_left)
  qed
  from r sr val show ?thesis by blast
qed

lemma sample_pchip:
  "\<exists>fd. complex_pchip secant_prim (map (\<lambda>f. 2 * pi * f) [0, 1]) (array1 [1, \<i>])
           (map (\<lambda>f. 2 * pi * f) [0, 1]) 1 0 = Inr fd \<and> shape fd = [2] \<and>
        item fd [0] = (\<i> - 1) / (2 * pi) \<and> item fd [Suc 0] = (\<i> - 1) / (2 * pi)"
proof -
  let ?om = "map (\<lambda>f. 2 * pi * f) [0, 1 :: real]"
  let ?fv = "array1 [1, \<i>]"
  have "\<exists>re. secant_prim ?om (map_array Re ?fv) ?om 1 0 = Inr re
          \<and> shape re = [2] \<and> item re [0] = - 1 / (2 * pi) \<and> item re [Suc 0] = - 1 / (2 * pi)"
    by (simp add: secant_prim_def array1_def map_array_def)
  then obtain re where a: "secant_prim ?om (map_array Re ?fv) ?om 1 0 = Inr re"
    and sa: "shape re = [2]" and ia: "item re [0] = - 1 / (2 * pi)" "item re [Suc 0] = - 1 / (2 * pi)"
    by blast
  have "\<exists>im. secant_prim ?om (map_array Im ?fv) ?om 1 0 = Inr im
          \<and> shape im = [2] \<and> item im [0] = 1 / (2 * pi) \<and> item im [Suc 0] = 1 / (2 * pi)"
    by (simp add: secant_prim_def array1_def map_array_def)
  then obtain im where b: "secant_prim ?om (map_array Im ?fv) ?om 1 0 = Inr im"
    and sb: "shape im = [2]" and ib: "item im [0] = 1 / (2 * pi)" "item im [Suc 0] = 1 / (2 * pi)"
    by blast
  from complex_pchip_value[of secant_prim ?om ?fv ?om 1 0, OF a b]
  obtain fd where fd: "complex_pchip secant_prim ?om ?fv ?om 1 0 = Inr fd" and sfd: "shape fd = [2]"
    and ifd: "\<And>idx. valid_index [2] idx \<Longrightarrow>
             item fd idx = complex_of_real (item re idx) + \<i> * complex_of_real (item im idx)"
    by (auto simp: sa sb)
  have "item fd [0] = (\<i> - 1) / (2 * pi)" "item fd [Suc 0] = (\<i> - 1) / (2 * pi)"
    using ifd[of "[0]"] ifd[of "[1]"] by (simp_all add: ia ib field_simps)
  with fd sfd show ?thesis by blast
qed

lemma sample_kernel_calls:
  "\<exists>delta eo x. kernel_argument (array1 [1]) (map (\<lambda>f. 2 * pi * f) [0, 1]) (Suc (Suc r))
            = Inr (delta, eo, x) \<and>
      phi_and_psi eps x = Inr (unravel (1 # 1 # replicate r 1) [phi_closed (2 * pi)],
                               unravel (1 # 1 # replicate r 1) [psi_closed (2 * pi)]) \<and>
      phi_and_psi eps (map_array uminus x)
         = Inr (unravel (1 # 1 # replicate r 1) [phi_closed (- (2 * pi))],
                unravel (1 # 1 # replicate r 1) [psi_closed (- (2 * pi))])"
proof -
  let ?om = "map (\<lambda>f. 2 * pi * f) [0, 1 :: real]"
  have lr: "length (replicate r (1::nat)) = r" by simp
  from kernel_argument_represents[OF lr, of "[1]" ?om]
  obtain delta eo x where ka: "kernel_argument (array1 [1]) ?om (Suc (Suc r)) = Inr (delta, eo, x)"
    and rx: "represents x (False # False # replicate r True)
        (length [1::real] # (length ?om - 1) # replicate r 1)
        (\<lambda>idx. (?om ! Suc (idx ! 1) - ?om ! (idx ! 1)) * [1] ! hd idx)"
    by auto
  have sx: "shape x = 1 # 1 # replicate r 1"
    using represents_shape[OF rx] by (simp add: stored_dim_all_true)
  have ind: "indices (replicate r (Suc 0)) = [replicate r 0]"
    by (induction r) simp_all
  have v: "valid_index (replicate r 1) (replicate r 0)"
    by (simp add: valid_index_def list_all2_conv_all_nth)
  have ix: "item x (0 # 0 # replicate r 0) = 2 * pi"
    using represents_item_zero[OF rx lr, of 0 0 "replicate r 0"] v by simp
  have rvx: "ravel x = [2 * pi]" by (simp add: ravel_def sx ind ix)
  have big: "1 \<le> \<bar>2 * pi\<bar>" using pi_ge_two by simp
  have pp: "phi_and_psi eps x
      = Inr (unravel (1 # 1 # replicate r 1) [phi_closed (2 * pi)],
             unravel (1 # 1 # replicate r 1) [psi_closed (2 * pi)])"
    using phi_and_psi_closed[of x eps] big by (simp add: rvx sx)
  have pm: "phi_and_psi eps (map_array uminus x)
      = Inr (unravel (1 # 1 # replicate r 1) [phi_closed (- (2 * pi))],
             unravel (1 # 1 # replicate r 1) [psi_closed (- (2 * pi))])"
    using phi_and_psi_closed[of "map_array uminus x" eps] big
    by (simp add: ravel_map_array rvx sx)
  from ka pp pm show ?thesis by blast
qed

lemma sample_scalar_call:
  "\<exists>rs gd. complex_pchip secant_prim (map (\<lambda>f. 2 * pi * f) [0, 1]) (array1 [1, \<i>])
              (map (\<lambda>f. 2 * pi * f) [0, 1]) 1 0 = Inr gd \<and> shape gd = [2] \<and>
           item gd [0] = (\<i> - 1) / (2 * pi) \<and> item gd [Suc 0] = (\<i> - 1) / (2 * pi) \<and>
           fourier_integral_fixed_sampling_pchip secant_prim eps [1] [0, 1] (array1 [1, \<i>]) pos neg
             = Inr rs"
proof -
  from sample_pchip obtain gd where
    cp: "complex_pchip secant_prim (map (\<lambda>f. 2 * pi * f) [0, 1]) (array1 [1, \<i>])
           (map (\<lambda>f. 2 * pi * f) [0, 1]) 1 0 = Inr gd" and sgd: "shape gd = [2]"
    and i: "item gd [0] = (\<i> - 1) / (2 * pi)" "item gd [Suc 0] = (\<i> - 1) / (2 * pi)"
    by blast
  from sample_kernel_calls[of 0 eps] obtain delta eo x p q pm qm where
    ka: "kernel_argument (array1 [1]) (map (\<lambda>f. 2 * pi * f) [0, 1]) (Suc (Suc 0)) = Inr (delta, eo, x)"
    and pp: "phi_and_psi eps x = Inr (p, q)"
    and pm: "phi_and_psi eps (map_array uminus x) = Inr (pm, qm)"
    by blast
  from fourier_integral_value[of "[]" 0 "array1 [1, \<i>]" "[0, 1]" secant_prim gd pos neg "[1]"
         delta eo x eps p q pm qm, OF _ _ cp _ _ ka pp pm]
  obtain rs where "fourier_integral_fixed_sampling_pchip secant_prim eps [1] [0, 1] (array1 [1, \<i>]) pos neg
             = Inr rs"
    by (auto simp: shape_array1 sgd)
  with cp sgd i show ?thesis by blast
qed

theorem trailing_matrix_scales_scalar_case_witness:
  "\<exists>rs res.
     fourier_integral_fixed_sampling_pchip secant_prim (1 / 2 ^ 52) [1] [0, 1] (array1 [1, \<i>])
       True False = Inr rs \<and>
     fourier_integral_fixed_sampling_pchip secant_prim (1 / 2 ^ 52) [1] [0, 1]
       (NdArray [2, 2, 2]
          (\<lambda>idx. complex_of_real (real (2 * idx ! 1 + idx ! 2 + 1)) * [1, \<i>] ! (idx ! 0)))
       True False = Inr res \<and>
     shape res = [1, 2, 2] \<and> item res [0, 1, 0] = 3 * item rs [0]"
proof -
  let ?om = "map (\<lambda>f. 2 * pi * f) [0, 1 :: real]"
  let ?g = "array1 [1, \<i>]"
  let ?c = "\<lambda>i j. real (2 * i + j + 1)"
  let ?fv = "NdArray [2, 2, 2]
          (\<lambda>idx. complex_of_real (real (2 * idx ! 1 + idx ! 2 + 1)) * [1, \<i>] ! (idx ! 0))"
  from sample_scalar_call[of "1 / 2 ^ 52" True False] obtain rs gd where
    cpg: "complex_pchip secant_prim ?om ?g ?om 1 0 = Inr gd" and sgd: "shape gd = [2]"
    and igd: "item gd [0] = (\<i> - 1) / (2 * pi)" "item gd [Suc 0] = (\<i> - 1) / (2 * pi)"
    and call: "fourier_integral_fixed_sampling_pchip secant_prim (1 / 2 ^ 52) [1] [0, 1] ?g True False
             = Inr rs"
    by blast
  have "\<exists>re. secant_prim ?om (map_array Re ?fv) ?om 1 0 = Inr re \<and> shape re = [2, 2, 2] \<and>
          (\<forall>k i j. item re [k, i, j] = - ?c i j / (2 * pi))"
    by (simp add: secant_prim_def map_array_def)
  then obtain re where a: "secant_prim ?om (map_array Re ?fv) ?om 1 0 = Inr re"
    and sa: "shape re = [2, 2, 2]" and ia: "\<And>k i j. item re [k, i, j] = - ?c i j / (2 * pi)"
    by blast
  have "\<exists>im. secant_prim ?om (map_array Im ?fv) ?om 1 0 = Inr im \<and> shape im = [2, 2, 2] \<and>
          (\<forall>k i j. item im [k, i, j] = ?c i j / (2 * pi))"
    by (simp add: secant_prim_def map_array_def)
  then obtain im where b: "secant_prim ?om (map_array Im ?fv) ?om 1 0 = Inr im"
    and sb: "shape im = [2, 2, 2]" and ib: "\<And>k i j. item im [k, i, j] = ?c i j / (2 * pi)"
    by blast
  from complex_pchip_value[of secant_prim ?om ?fv ?om 1 0, OF a b]
  obtain fd where cpf: "complex_pchip secant_prim ?om ?fv ?om 1 0 = Inr fd"
    and sfd: "shape fd = [2, 2, 2]"
    and ifd: "\<And>idx. valid_index [2, 2, 2] idx \<Longrightarrow>
             item fd idx = complex_of_real (item re idx) + \<i> * complex_of_real (item im idx)"
    by (auto simp: sa sb)
  have fvc: "\<forall>k<length [0, 1::real]. \<forall>i<2. \<forall>j<2.
               item ?fv [k, i, j] = complex_of_real (?c i j) * item ?g [k]"
    by (simp add: array1_def)
  have fdc: "\<forall>k<length [0, 1::real]. \<forall>i<2. \<forall>j<2.
               item fd [k, i, j] = complex_of_real (?c i j) * item gd [k]"
  proof (intro allI impI)
    fix k i j :: nat assume k: "k < length [0, 1::real]" and i: "i < 2" and j: "j < 2"
    then have "valid_index [2, 2, 2] [k, i, j]" by simp
    have alg: "complex_of_real (- a / (2 * pi)) + \<i> * complex_of_real (a / (2 * pi))
        = complex_of_real a * ((\<i> - 1) / (2 * pi))" for a :: real
      by (simp add: divide_simps) (simp add: algebra_simps)
    from ifd[OF \<open>valid_index [2, 2, 2] [k, i, j]\<close>]
    have "item fd [k, i, j] = complex_of_real (?c i j) * ((\<i> - 1) / (2 * pi))"
      unfolding ia ib by (rule trans[OF _ alg])
    moreover from k have "k = 0 \<or> k = Suc 0" by auto
    ultimately show "item fd [k, i, j] = complex_of_real (?c i j) * item gd [k]"
      using igd by auto
  qed
  from trailing_matrix_scales_scalar_case[of ?g "[0, 1]" ?fv ?c secant_prim gd fd "1 / 2 ^ 52" "[1]"
         True False rs, OF _ _ fvc cpg _ cpf _ fdc call]
  obtain res where r: "fourier_integral_fixed_sampling_pchip secant_prim (1 / 2 ^ 52) [1] [0, 1] ?fv
       True False = Inr res" and s: "shape res = [1, 2, 2]"
    and v: "\<forall>m<length [1::real]. \<forall>i<2. \<forall>j<2.
              item res [m, i, j] = complex_of_real (?c i j) * item rs [m]"
    by (auto simp: shape_array1 sgd sfd)
  from v have "item res [0, 1, 0] = 3 * item rs [0]" by simp
  with call r s show ?thesis by blast
qed

subsection \<open>The Taylor loop of \<open>_phi_and_psi\<close> in closed form\<close>

lemma find_upt_None: "find P [0..<n] = None \<longleftrightarrow> \<not> (\<exists>k<n. P k)"
  by (auto simp: find_None_iff)

lemma find_snoc:
  "find P (xs @ [y]) = (case find P xs of None \<Rightarrow> (if P y then Some y else None) | Some k \<Rightarrow> Some k)"
  by (induction xs) auto

lemma find_upt_Suc:
  "find P [0..<Suc n] = (case find P [0..<n] of None \<Rightarrow> (if P n then Some n else None) | Some k \<Rightarrow> Some k)"
  by (simp add: find_snoc)

lemma taylor_count_0 [simp]: "taylor_count P 0 = 0"
  by (simp add: taylor_count_def)

lemma taylor_count_Suc:
  "taylor_count P (Suc n) = (if \<exists>k<n. P k then taylor_count P n else Suc n)"
proof (cases "find P [0..<n]")
  case None
  then have "\<not> (\<exists>k<n. P k)" by (simp add: find_upt_None)
  then show ?thesis using None by (simp add: taylor_count_def find_upt_Suc del: upt_Suc)
next
  case (Some k)
  then have "\<exists>k<n. P k" using find_upt_None[of P n] by auto
  then show ?thesis using Some by (simp add: taylor_count_def find_upt_Suc del: upt_Suc)
qed

lemma taylor_count_none: "\<not> (\<exists>k<n. P k) \<Longrightarrow> taylor_count P n = n"
  using find_upt_None[of P n] by (simp add: taylor_count_def)

lemma taylor_count_stable:
  assumes "\<exists>k<n. P k" "n \<le> n1"
  shows "taylor_count P n1 = taylor_count P n"
  using assms(2,1)
proof (induction n1 rule: dec_induct)
  case base then show ?case by simp
next
  case (step j)
  then have "\<exists>k<j. P k" by (meson less_le_trans)
  with step show ?case by (simp add: taylor_count_Suc)
qed

lemma zip_map_same: "zip (map g xs) (map h xs) = map (\<lambda>x. (g x, h x)) xs"
  by (induction xs) auto

lemma map2_map_same: "map2 f (map g xs) (map h xs) = map (\<lambda>x. f (g x) (h x)) xs"
  by (simp add: zip_map_same comp_def)

lemma map2_map_left: "map2 f (map g xs) xs = map (\<lambda>x. f (g x) x) xs"
  using map2_map_same[of f g xs "\<lambda>x. x"] by simp

lemma compress_map: "compress m (map f xs) = map f (compress m xs)"
  by (simp add: compress_def zip_map2 filter_map comp_def case_prod_beta)

lemma phi_partial_Suc: "phi_partial (Suc n) x = phi_partial n x + phi_term n x"
  by (simp add: phi_partial_def)

lemma psi_partial_Suc: "psi_partial (Suc n) x = psi_partial n x + psi_term n x"
  by (simp add: psi_partial_def)

lemma list_all_id_map: "list_all id (map P xs) = list_all P xs"
  by (induction xs) auto

lemma phi_pass_inv:
  assumes cnt: "length (filter id m) = length xx"
    and com: "common_inv xx n st" and inv: "phi_inv eps m xx cphi n st" and nc: "\<not> phi_converged st"
  shows "phi (phi_pass eps m xx n st) = place m (phi st) (map (phi_partial (Suc n)) xx)"
    and "phi_converged (phi_pass eps m xx n st) = phi_meets eps xx n"
proof -
  from com inv have len: "length (phi st) = length m"
    and jx: "jx_to_n st = map (\<lambda>x. (\<i> * complex_of_real x) ^ n) xx"
    and ax: "abs_x_to_n_plus_1 st = map (\<lambda>x. \<bar>x\<bar> ^ Suc n) xx"
    and fa: "inv_factorial st = 1 / fact n"
    and pc: "phi_converged st \<longleftrightarrow> (\<exists>k<n. phi_meets eps xx k)"
    and cp: "compress m (phi st) = map (phi_partial (taylor_count (phi_meets eps xx) n)) xx"
    by (auto simp: common_inv_def phi_inv_def)
  from nc pc have "taylor_count (phi_meets eps xx) n = n" by (simp add: taylor_count_none)
  with cp have cp': "compress m (phi st) = map (phi_partial n) xx" by simp
  define terms where "terms = map (\<lambda>j. complex_of_real (real (n + 6) / real ((n + 3) * (n + 4))) * j
                     * complex_of_real (inv_factorial st)) (jx_to_n st)"
  define new where "new = map2 (+) (compress m (phi st)) terms"
  define bound where "bound = map2 (\<lambda>a x. 2 * a * exp \<bar>x\<bar> * inv_factorial st / real ((n + 1) * (n + 5)))
              (abs_x_to_n_plus_1 st) xx"
  define cmp where "cmp = map2 (\<lambda>b m. b < eps * m) bound (min_component (compress m (place m (phi st) new)))"
  have pp: "phi_pass eps m xx n st = st\<lparr>phi := place m (phi st) new, phi_converged := list_all id cmp\<rparr>"
    unfolding phi_pass_def Let_def cmp_def bound_def new_def terms_def ..
  have t: "terms = map (phi_term n) xx"
    unfolding terms_def jx fa phi_term_def by (simp add: comp_def)
  have nw: "new = map (phi_partial (Suc n)) xx"
    unfolding new_def cp' t by (simp add: map2_map_same phi_partial_Suc)
  have c1: "compress m (place m (phi st) new) = new"
    by (rule compress_place) (use len cnt in \<open>simp_all add: nw\<close>)
  have b: "bound = map (phi_bound n) xx"
    unfolding bound_def ax fa phi_bound_def by (simp add: map2_map_left)
  have "cmp = map (\<lambda>x. phi_bound n x
                    < eps * min \<bar>Re (phi_partial (Suc n) x)\<bar> \<bar>Im (phi_partial (Suc n) x)\<bar>) xx"
    unfolding cmp_def c1 b min_component_def unfolding nw by (simp add: map2_map_same comp_def)
  then have "list_all id cmp = phi_meets eps xx n"
    by (simp add: phi_meets_def list_all_id_map)
  then show "phi_converged (phi_pass eps m xx n st) = phi_meets eps xx n"
    by (simp add: pp)
  show "phi (phi_pass eps m xx n st) = place m (phi st) (map (phi_partial (Suc n)) xx)"
    by (simp add: pp nw)
qed

lemma psi_pass_inv:
  assumes cnt: "length (filter id m) = length xx"
    and com: "common_inv xx n st" and inv: "psi_inv eps m xx cpsi n st" and nc: "\<not> psi_converged st"
  shows "psi (psi_pass eps m xx n st) = place m (psi st) (map (psi_partial (Suc n)) xx)"
    and "psi_converged (psi_pass eps m xx n st) = psi_meets eps xx n"
proof -
  from com inv have len: "length (psi st) = length m"
    and jx: "jx_to_n st = map (\<lambda>x. (\<i> * complex_of_real x) ^ n) xx"
    and ax: "abs_x_to_n_plus_1 st = map (\<lambda>x. \<bar>x\<bar> ^ Suc n) xx"
    and fa: "inv_factorial st = 1 / fact n"
    and pc: "psi_converged st \<longleftrightarrow> (\<exists>k<n. psi_meets eps xx k)"
    and cp: "compress m (psi st) = map (psi_partial (taylor_count (psi_meets eps xx) n)) xx"
    by (auto simp: common_inv_def psi_inv_def)
  from nc pc have "taylor_count (psi_meets eps xx) n = n" by (simp add: taylor_count_none)
  with cp have cp': "compress m (psi st) = map (psi_partial n) xx" by simp
  define terms where "terms = map (\<lambda>j. complex_of_real (- 1 / real ((n + 3) * (n + 4))) * j
                     * complex_of_real (inv_factorial st)) (jx_to_n st)"
  define new where "new = map2 (+) (compress m (psi st)) terms"
  define bound where "bound = map2 (\<lambda>a x. a * exp \<bar>x\<bar> * inv_factorial st / real ((n + 1) * (n + 4) * (n + 5)))
              (abs_x_to_n_plus_1 st) xx"
  define cmp where "cmp = map2 (\<lambda>b m. b < eps * m) bound (min_component (compress m (place m (psi st) new)))"
  have pp: "psi_pass eps m xx n st = st\<lparr>psi := place m (psi st) new, psi_converged := list_all id cmp\<rparr>"
    unfolding psi_pass_def Let_def cmp_def bound_def new_def terms_def ..
  have t: "terms = map (psi_term n) xx"
    unfolding terms_def jx fa psi_term_def by (simp add: comp_def)
  have nw: "new = map (psi_partial (Suc n)) xx"
    unfolding new_def cp' t by (simp add: map2_map_same psi_partial_Suc)
  have c1: "compress m (place m (psi st) new) = new"
    by (rule compress_place) (use len cnt in \<open>simp_all add: nw\<close>)
  have b: "bound = map (psi_bound n) xx"
    unfolding bound_def ax fa psi_bound_def by (simp add: map2_map_left)
  have "cmp = map (\<lambda>x. psi_bound n x
                    < eps * min \<bar>Re (psi_partial (Suc n) x)\<bar> \<bar>Im (psi_partial (Suc n) x)\<bar>) xx"
    unfolding cmp_def c1 b min_component_def unfolding nw by (simp add: map2_map_same comp_def)
  then have "list_all id cmp = psi_meets eps xx n"
    by (simp add: psi_meets_def list_all_id_map)
  then show "psi_converged (psi_pass eps m xx n st) = psi_meets eps xx n"
    by (simp add: pp)
  show "psi (psi_pass eps m xx n st) = place m (psi st) (map (psi_partial (Suc n)) xx)"
    by (simp add: pp nw)
qed

lemma phi_pass_frame:
  "psi (phi_pass eps m xx n st) = psi st" "psi_converged (phi_pass eps m xx n st) = psi_converged st"
  "jx_to_n (phi_pass eps m xx n st) = jx_to_n st"
  "abs_x_to_n_plus_1 (phi_pass eps m xx n st) = abs_x_to_n_plus_1 st"
  "inv_factorial (phi_pass eps m xx n st) = inv_factorial st"
  by (simp_all add: phi_pass_def Let_def)

lemma psi_pass_frame:
  "phi (psi_pass eps m xx n st) = phi st" "phi_converged (psi_pass eps m xx n st) = phi_converged st"
  "jx_to_n (psi_pass eps m xx n st) = jx_to_n st"
  "abs_x_to_n_plus_1 (psi_pass eps m xx n st) = abs_x_to_n_plus_1 st"
  "inv_factorial (psi_pass eps m xx n st) = inv_factorial st"
  by (simp_all add: psi_pass_def Let_def)

lemma kernel_update_frame:
  "phi (kernel_update xx n st) = phi st" "psi (kernel_update xx n st) = psi st"
  "phi_converged (kernel_update xx n st) = phi_converged st"
  "psi_converged (kernel_update xx n st) = psi_converged st"
  by (simp_all add: kernel_update_def)

lemma common_inv_update:
  assumes "common_inv xx n st"
  shows "common_inv xx (Suc n) (kernel_update xx n st)"
  using assms
  by (simp add: common_inv_def kernel_update_def map2_map_left)

lemma phi_inv_step:
  assumes cnt: "length (filter id m) = length xx"
    and com: "common_inv xx n st" and inv: "phi_inv eps m xx cphi n st"
  shows "phi_inv eps m xx cphi (Suc n) (if \<not> phi_converged st then phi_pass eps m xx n st else st)"
proof (cases "phi_converged st")
  case True
  with inv have ex: "\<exists>k<n. phi_meets eps xx k" by (simp add: phi_inv_def)
  then have "\<exists>k<Suc n. phi_meets eps xx k" using less_Suc_eq by blast
  with True inv ex show ?thesis by (simp add: phi_inv_def taylor_count_Suc)
next
  case False
  with inv have nex: "\<not> (\<exists>k<n. phi_meets eps xx k)" and len: "length (phi st) = length m"
    and cc: "compress (map Not m) (phi st) = cphi"
    by (simp_all add: phi_inv_def)
  note pp = phi_pass_inv[OF cnt com inv False]
  have 1: "compress m (place m (phi st) (map (phi_partial (Suc n)) xx)) = map (phi_partial (Suc n)) xx"
    by (rule compress_place) (use len cnt in simp_all)
  have 2: "compress (map Not m) (place m (phi st) (map (phi_partial (Suc n)) xx)) = cphi"
    using compress_place_not[OF len] cc by simp
  have 3: "(\<exists>k<Suc n. phi_meets eps xx k) \<longleftrightarrow> phi_meets eps xx n"
    using nex less_Suc_eq by auto
  have tc: "taylor_count (phi_meets eps xx) (Suc n) = Suc n"
    using nex by (auto simp: taylor_count_Suc)
  show ?thesis
    using False len
    by (simp add: phi_inv_def pp 1 2 3 tc)
qed

lemma psi_inv_step:
  assumes cnt: "length (filter id m) = length xx"
    and com: "common_inv xx n st" and inv: "psi_inv eps m xx cpsi n st"
  shows "psi_inv eps m xx cpsi (Suc n) (if \<not> psi_converged st then psi_pass eps m xx n st else st)"
proof (cases "psi_converged st")
  case True
  with inv have ex: "\<exists>k<n. psi_meets eps xx k" by (simp add: psi_inv_def)
  then have "\<exists>k<Suc n. psi_meets eps xx k" using less_Suc_eq by blast
  with True inv ex show ?thesis by (simp add: psi_inv_def taylor_count_Suc)
next
  case False
  with inv have nex: "\<not> (\<exists>k<n. psi_meets eps xx k)" and len: "length (psi st) = length m"
    and cc: "compress (map Not m) (psi st) = cpsi"
    by (simp_all add: psi_inv_def)
  note pp = psi_pass_inv[OF cnt com inv False]
  have 1: "compress m (place m (psi st) (map (psi_partial (Suc n)) xx)) = map (psi_partial (Suc n)) xx"
    by (rule compress_place) (use len cnt in simp_all)
  have 2: "compress (map Not m) (place m (psi st) (map (psi_partial (Suc n)) xx)) = cpsi"
    using compress_place_not[OF len] cc by simp
  have 3: "(\<exists>k<Suc n. psi_meets eps xx k) \<longleftrightarrow> psi_meets eps xx n"
    using nex less_Suc_eq by auto
  have tc: "taylor_count (psi_meets eps xx) (Suc n) = Suc n"
    using nex by (auto simp: taylor_count_Suc)
  show ?thesis
    using False len
    by (simp add: psi_inv_def pp 1 2 3 tc)
qed

lemma phi_inv_frame:
  "phi st' = phi st \<Longrightarrow> phi_converged st' = phi_converged st \<Longrightarrow>
   phi_inv eps m xx cphi n st \<Longrightarrow> phi_inv eps m xx cphi n st'"
  by (simp add: phi_inv_def)

lemma psi_inv_frame:
  "psi st' = psi st \<Longrightarrow> psi_converged st' = psi_converged st \<Longrightarrow>
   psi_inv eps m xx cpsi n st \<Longrightarrow> psi_inv eps m xx cpsi n st'"
  by (simp add: psi_inv_def)

lemma common_inv_frame:
  "jx_to_n st' = jx_to_n st \<Longrightarrow> abs_x_to_n_plus_1 st' = abs_x_to_n_plus_1 st \<Longrightarrow>
   inv_factorial st' = inv_factorial st \<Longrightarrow> common_inv xx n st \<Longrightarrow> common_inv xx n st'"
  by (simp add: common_inv_def)

lemma kernel_pass_inv:
  assumes cnt: "length (filter id m) = length xx"
    and com: "common_inv xx n st" and ph: "phi_inv eps m xx cphi n st"
    and ps: "psi_inv eps m xx cpsi n st"
  shows "common_inv xx (Suc n) (kernel_pass eps m xx n st)"
    and "phi_inv eps m xx cphi (Suc n) (kernel_pass eps m xx n st)"
    and "psi_inv eps m xx cpsi (Suc n) (kernel_pass eps m xx n st)"
proof -
  define st1 where "st1 = (if \<not> phi_converged st then phi_pass eps m xx n st else st)"
  define st2 where "st2 = (if \<not> psi_converged st1 then psi_pass eps m xx n st1 else st1)"
  have kp: "kernel_pass eps m xx n st = kernel_update xx n st2"
    by (simp add: kernel_pass_def Let_def st1_def st2_def)
  have ph1: "phi_inv eps m xx cphi (Suc n) st1"
    unfolding st1_def by (rule phi_inv_step[OF cnt com ph])
  have com1: "common_inv xx n st1"
    by (rule common_inv_frame[OF _ _ _ com]) (simp_all add: st1_def phi_pass_frame)
  have ps1: "psi_inv eps m xx cpsi n st1"
    by (rule psi_inv_frame[OF _ _ ps]) (simp_all add: st1_def phi_pass_frame)
  have ps2: "psi_inv eps m xx cpsi (Suc n) st2"
    unfolding st2_def by (rule psi_inv_step[OF cnt com1 ps1])
  have com2: "common_inv xx n st2"
    by (rule common_inv_frame[OF _ _ _ com1]) (simp_all add: st2_def psi_pass_frame)
  have ph2: "phi_inv eps m xx cphi (Suc n) st2"
    by (rule phi_inv_frame[OF _ _ ph1]) (simp_all add: st2_def psi_pass_frame)
  show "common_inv xx (Suc n) (kernel_pass eps m xx n st)"
    unfolding kp by (rule common_inv_update[OF com2])
  show "phi_inv eps m xx cphi (Suc n) (kernel_pass eps m xx n st)"
    unfolding kp by (rule phi_inv_frame[OF _ _ ph2]) (simp_all add: kernel_update_frame)
  show "psi_inv eps m xx cpsi (Suc n) (kernel_pass eps m xx n st)"
    unfolding kp by (rule psi_inv_frame[OF _ _ ps2]) (simp_all add: kernel_update_frame)
qed

lemma kernel_loop_inv:
  assumes cnt: "length (filter id m) = length xx"
  shows "common_inv xx n st \<Longrightarrow> phi_inv eps m xx cphi n st \<Longrightarrow> psi_inv eps m xx cpsi n st \<Longrightarrow>
    \<exists>n'. n \<le> n' \<and> n' \<le> max n n1 \<and>
      phi_inv eps m xx cphi n' (kernel_loop eps m xx [n..<n1] st) \<and>
      psi_inv eps m xx cpsi n' (kernel_loop eps m xx [n..<n1] st) \<and>
      (n' < n1 \<longrightarrow> phi_converged (kernel_loop eps m xx [n..<n1] st)
                    \<and> psi_converged (kernel_loop eps m xx [n..<n1] st))"
proof (induction "n1 - n" arbitrary: n st)
  case 0
  then have "[n..<n1] = []" by simp
  with 0 show ?case by (intro exI[of _ n]) auto
next
  case (Suc d)
  then have lt: "n < n1" by simp
  then have up: "[n..<n1] = n # [Suc n..<n1]" by (simp add: upt_conv_Cons)
  show ?case
  proof (cases "phi_converged st \<and> psi_converged st")
    case True
    then have "kernel_loop eps m xx [n..<n1] st = st" by (simp add: up)
    with True Suc.prems lt show ?thesis by (intro exI[of _ n]) auto
  next
    case False
    then have kl: "kernel_loop eps m xx [n..<n1] st
        = kernel_loop eps m xx [Suc n..<n1] (kernel_pass eps m xx n st)"
      by (auto simp: up)
    note kp = kernel_pass_inv[OF cnt Suc.prems]
    have "d = n1 - Suc n" using Suc.hyps(2) by simp
    from Suc.hyps(1)[OF this kp]
    obtain n' where "Suc n \<le> n'" "n' \<le> max (Suc n) n1"
      "phi_inv eps m xx cphi n' (kernel_loop eps m xx [Suc n..<n1] (kernel_pass eps m xx n st))"
      "psi_inv eps m xx cpsi n' (kernel_loop eps m xx [Suc n..<n1] (kernel_pass eps m xx n st))"
      "n' < n1 \<longrightarrow> phi_converged (kernel_loop eps m xx [Suc n..<n1] (kernel_pass eps m xx n st))
                    \<and> psi_converged (kernel_loop eps m xx [Suc n..<n1] (kernel_pass eps m xx n st))"
      by blast
    then show ?thesis unfolding kl using lt by (intro exI[of _ n']) auto
  qed
qed

lemma compress_Cons: "compress (b # bs) (r # rs) = (if b then r # compress bs rs else compress bs rs)"
  by (simp add: compress_def)

lemma merge_by_mask:
  assumes "length r = length x"
    and "compress (map P x) r = map f (compress (map P x) x)"
    and "compress (map Not (map P x)) r = map h (compress (map Not (map P x)) x)"
  shows "r = map (\<lambda>v. if P v then f v else h v) x"
  using assms
proof (induction x arbitrary: r)
  case Nil then show ?case by simp
next
  case (Cons a x)
  then obtain r0 rs where r: "r = r0 # rs" by (cases r) auto
  with Cons.prems have "length rs = length x" by simp
  moreover from Cons.prems have "compress (map P x) rs = map f (compress (map P x) x)"
    by (auto simp: r compress_Cons split: if_splits)
  moreover from Cons.prems have "compress (map Not (map P x)) rs = map h (compress (map Not (map P x)) x)"
    by (auto simp: r compress_Cons split: if_splits)
  ultimately have "rs = map (\<lambda>v. if P v then f v else h v) x" by (rule Cons.IH)
  moreover from Cons.prems have "r0 = (if P a then f a else h a)"
    by (auto simp: r compress_Cons split: if_splits)
  ultimately show ?case by (simp add: r)
qed

lemma phi_and_psi_flat_taylor:
  fixes x :: "real list"
  defines "xx \<equiv> filter (\<lambda>v. \<bar>v\<bar> < 1) x"
  shows "phi_and_psi_flat eps x =
     (if (\<exists>k\<le>MAX_TAYLOR_ITERATIONS. phi_meets eps xx k) \<and> (\<exists>k\<le>MAX_TAYLOR_ITERATIONS. psi_meets eps xx k)
      then Inr (map (\<lambda>v. if \<bar>v\<bar> < 1
                          then phi_partial (taylor_count (phi_meets eps xx) (MAX_TAYLOR_ITERATIONS + 1)) v
                          else phi_closed v) x,
                map (\<lambda>v. if \<bar>v\<bar> < 1
                          then psi_partial (taylor_count (psi_meets eps xx) (MAX_TAYLOR_ITERATIONS + 1)) v
                          else psi_closed v) x)
      else Inl (RuntimeError ''Phi and Psi calculation failed to converge after 1000 iterations''))"
proof -
  define m where "m = map (\<lambda>v. \<bar>v\<bar> < 1) x"
  define n1 where "n1 = MAX_TAYLOR_ITERATIONS + 1"
  define cphi where "cphi = map phi_closed (compress (map Not m) x)"
  define cpsi where "cpsi = map psi_closed (compress (map Not m) x)"
  define st0 where "st0 = \<lparr>phi = place (map Not m) (map (\<lambda>_. 0) x) cphi,
                 psi = place (map Not m) (map (\<lambda>_. 0) x) cpsi,
                 jx_to_n = map (\<lambda>_. 1) xx,
                 abs_x_to_n_plus_1 = map abs xx,
                 inv_factorial = 1,
                 phi_converged = False, psi_converged = False\<rparr>"
  define st where "st = kernel_loop eps m xx [0..<n1] st0"
  have cx: "compress m x = xx" by (simp add: m_def xx_def compress_map_filter)
  have cnt: "length (filter id m) = length xx"
    by (simp add: m_def xx_def filter_map comp_def)
  have cntn: "length (filter id (map Not m)) = length (compress (map Not m) x)"
    by (simp add: length_compress m_def)
  have flat: "phi_and_psi_flat eps x = phi_and_psi_outcome st"
    unfolding phi_and_psi_flat_def Let_def st_def st0_def m_def[symmetric] cx cphi_def cpsi_def n1_def ..
  have z: "compress m (map (\<lambda>_. 0::complex) x) = map (\<lambda>_. 0) xx"
    by (simp add: compress_map cx)
  have p0: "phi_partial 0 = (\<lambda>_. 0)" "psi_partial 0 = (\<lambda>_. 0)"
    by (simp_all add: phi_partial_def psi_partial_def fun_eq_iff)
  have com0: "common_inv xx 0 st0" by (simp add: common_inv_def st0_def)
  have lm: "length m = length x" by (simp add: m_def)
  have a1: "compress m (place (map Not m) (map (\<lambda>_. 0) x) c) = compress m (map (\<lambda>_. 0) x)"
    for c :: "complex list"
    by (rule compress_place_other) (simp add: lm)
  have a2: "compress (map Not m) (place (map Not m) (map (\<lambda>_. 0) x) (map f (compress (map Not m) x)))
              = map f (compress (map Not m) x)" for f :: "real \<Rightarrow> complex"
  proof (rule compress_place)
    show "length (map (\<lambda>_. 0::complex) x) = length (map Not m)" by (simp add: lm)
    show "length (map f (compress (map Not m) x)) = length (filter id (map Not m))"
      using cntn by (simp only: length_map)
  qed
  have ph0: "phi_inv eps m xx cphi 0 st0"
    unfolding phi_inv_def st0_def using a2[of phi_closed]
    by (simp add: a1 z p0 lm cphi_def)
  have ps0: "psi_inv eps m xx cpsi 0 st0"
    unfolding psi_inv_def st0_def using a2[of psi_closed]
    by (simp add: a1 z p0 lm cpsi_def)
  from kernel_loop_inv[OF cnt com0 ph0 ps0, of n1]
  obtain n' where n': "n' \<le> n1" and ph: "phi_inv eps m xx cphi n' st" and ps: "psi_inv eps m xx cpsi n' st"
    and early: "n' < n1 \<longrightarrow> phi_converged st \<and> psi_converged st"
    unfolding st_def by auto
  have le: "(\<exists>k\<le>MAX_TAYLOR_ITERATIONS. P k) \<longleftrightarrow> (\<exists>k<n1. P k)" for P
    by (auto simp: n1_def less_Suc_eq_le)
  show ?thesis
  proof (cases "phi_converged st \<and> psi_converged st")
    case True
    with ph ps have e1: "\<exists>k<n'. phi_meets eps xx k" and e2: "\<exists>k<n'. psi_meets eps xx k"
      by (simp_all add: phi_inv_def psi_inv_def)
    then have c: "(\<exists>k<n1. phi_meets eps xx k) \<and> (\<exists>k<n1. psi_meets eps xx k)"
      using n' by (meson less_le_trans)
    have t1: "taylor_count (phi_meets eps xx) n1 = taylor_count (phi_meets eps xx) n'"
      and t2: "taylor_count (psi_meets eps xx) n1 = taylor_count (psi_meets eps xx) n'"
      using taylor_count_stable[OF e1 n'] taylor_count_stable[OF e2 n'] by simp_all
    from ph have l1: "length (phi st) = length x"
      and c1: "compress m (phi st) = map (phi_partial (taylor_count (phi_meets eps xx) n1)) (compress m x)"
      and d1: "compress (map Not m) (phi st) = map phi_closed (compress (map Not m) x)"
      by (simp_all add: phi_inv_def t1 cx cphi_def lm)
    from ps have l2: "length (psi st) = length x"
      and c2: "compress m (psi st) = map (psi_partial (taylor_count (psi_meets eps xx) n1)) (compress m x)"
      and d2: "compress (map Not m) (psi st) = map psi_closed (compress (map Not m) x)"
      by (simp_all add: psi_inv_def t2 cx cpsi_def lm)
    have "phi st = map (\<lambda>v. if \<bar>v\<bar> < 1 then phi_partial (taylor_count (phi_meets eps xx) n1) v
                            else phi_closed v) x"
      by (rule merge_by_mask[OF l1 c1[unfolded m_def] d1[unfolded m_def]])
    moreover have "psi st = map (\<lambda>v. if \<bar>v\<bar> < 1 then psi_partial (taylor_count (psi_meets eps xx) n1) v
                            else psi_closed v) x"
      by (rule merge_by_mask[OF l2 c2[unfolded m_def] d2[unfolded m_def]])
    ultimately show ?thesis
      unfolding flat le using True c by (simp add: phi_and_psi_outcome_def n1_def)
  next
    case False
    with early n' have "n' = n1" by auto
    with ph ps False have "\<not> ((\<exists>k<n1. phi_meets eps xx k) \<and> (\<exists>k<n1. psi_meets eps xx k))"
      by (auto simp: phi_inv_def psi_inv_def)
    then show ?thesis
      unfolding flat le using False by (simp add: phi_and_psi_outcome_def)
  qed
qed

subsection \<open>The Taylor loop of \<open>_lambda\<close> with one Taylor element\<close>

lemma lambda_partial_Suc: "lambda_partial (Suc n) x = lambda_partial n x + lambda_term n x"
  by (simp add: lambda_partial_def)

lemma lambda_add_term_inv:
  assumes cnt: "length (filter id m) = length xx" and inv: "lambda_inv m xx c n st"
  shows "length (lam_result (lambda_add_term m n st)) = length m"
    and "compress m (lam_result (lambda_add_term m n st)) = map (lambda_partial (Suc n)) xx"
    and "compress (map Not m) (lam_result (lambda_add_term m n st)) = c"
    and "lam_jx_to_n (lambda_add_term m n st) = lam_jx_to_n st"
    and "lam_abs_x_to_n_plus_1 (lambda_add_term m n st) = lam_abs_x_to_n_plus_1 st"
    and "lam_inv_factorial (lambda_add_term m n st) = lam_inv_factorial st"
proof -
  from inv have len: "length (lam_result st) = length m"
    and jx: "lam_jx_to_n st = map (\<lambda>x. (\<i> * complex_of_real x) ^ n) xx"
    and fa: "lam_inv_factorial st = 1 / fact n"
    and cp: "compress m (lam_result st) = map (lambda_partial n) xx"
    and cc: "compress (map Not m) (lam_result st) = c"
    by (auto simp: lambda_inv_def)
  define terms where "terms = map (\<lambda>j. complex_of_real (1 / real (n + 2)) * j
                     * complex_of_real (lam_inv_factorial st)) (lam_jx_to_n st)"
  define new where "new = map2 (+) (compress m (lam_result st)) terms"
  have la: "lambda_add_term m n st = st\<lparr>lam_result := place m (lam_result st) new\<rparr>"
    unfolding lambda_add_term_def new_def terms_def ..
  have t: "terms = map (lambda_term n) xx"
    unfolding terms_def jx fa lambda_term_def by (simp add: comp_def)
  have nw: "new = map (lambda_partial (Suc n)) xx"
    unfolding new_def cp t by (simp add: map2_map_same lambda_partial_Suc)
  have c1: "compress m (place m (lam_result st) new) = new"
    by (rule compress_place) (use len cnt in \<open>simp_all add: nw\<close>)
  show "length (lam_result (lambda_add_term m n st)) = length m" by (simp add: la len)
  show "compress m (lam_result (lambda_add_term m n st)) = map (lambda_partial (Suc n)) xx"
    by (simp add: la c1) (simp add: nw)
  show "compress (map Not m) (lam_result (lambda_add_term m n st)) = c"
    using compress_place_not[OF len, of new] cc by (simp add: la)
  show "lam_jx_to_n (lambda_add_term m n st) = lam_jx_to_n st"
    "lam_abs_x_to_n_plus_1 (lambda_add_term m n st) = lam_abs_x_to_n_plus_1 st"
    "lam_inv_factorial (lambda_add_term m n st) = lam_inv_factorial st"
    by (simp_all add: la)
qed

lemma lambda_check_single:
  assumes cnt: "length (filter id m) = 1" and inv: "lambda_inv m [x0] c n st"
  shows "lambda_check eps m [x0] n (lambda_add_term m n st) = [lambda_meets eps x0 n]"
proof -
  have cnt': "length (filter id m) = length [x0]" using cnt by simp
  note a = lambda_add_term_inv[OF cnt' inv]
  from inv have ax: "lam_abs_x_to_n_plus_1 st = [\<bar>x0\<bar> ^ Suc n]"
    and fa: "lam_inv_factorial st = 1 / fact n"
    by (auto simp: lambda_inv_def)
  show ?thesis
    unfolding lambda_check_def Let_def a(2) a(5) a(6) ax fa
    by (simp add: lambda_meets_def lambda_bound_def)
qed

lemma lambda_update_inv:
  assumes cnt: "length (filter id m) = length xx" and inv: "lambda_inv m xx c n st"
  shows "lambda_inv m xx c (Suc n) (lambda_update xx n (lambda_add_term m n st))"
proof -
  note a = lambda_add_term_inv[OF cnt inv]
  from inv have jx: "lam_jx_to_n st = map (\<lambda>x. (\<i> * complex_of_real x) ^ n) xx"
    and ax: "lam_abs_x_to_n_plus_1 st = map (\<lambda>x. \<bar>x\<bar> ^ Suc n) xx"
    and fa: "lam_inv_factorial st = 1 / fact n"
    by (auto simp: lambda_inv_def)
  show ?thesis
    unfolding lambda_inv_def
    by (simp add: lambda_update_def a jx ax fa map2_map_left)
qed

lemma lambda_loop_single:
  assumes cnt: "length (filter id m) = 1"
  shows "lambda_inv m [x0] c n st \<Longrightarrow>
    \<exists>st'. lambda_loop rules eps m [x0] [n..<n1] last_n st
            = Inr (case find (lambda_meets eps x0) [n..<n1] of
                     Some k \<Rightarrow> k | None \<Rightarrow> last (last_n # [n..<n1]), st') \<and>
          length (lam_result st') = length m \<and>
          compress (map Not m) (lam_result st') = c \<and>
          (\<forall>k. find (lambda_meets eps x0) [n..<n1] = Some k \<longrightarrow>
               compress m (lam_result st') = [lambda_partial (Suc k) x0])"
proof (induction "n1 - n" arbitrary: n st last_n)
  case 0
  then have "[n..<n1] = []" by simp
  with 0 show ?case by (auto simp: lambda_inv_def)
next
  case (Suc d)
  then have lt: "n < n1" by simp
  then have up: "[n..<n1] = n # [Suc n..<n1]" by (simp add: upt_conv_Cons)
  have cnt': "length (filter id m) = length [x0]" using cnt by simp
  note a = lambda_add_term_inv[OF cnt' Suc.prems]
  note chk = lambda_check_single[OF cnt Suc.prems, of eps]
  show ?case
  proof (cases "lambda_meets eps x0 n")
    case True
    have "lambda_loop rules eps m [x0] [n..<n1] last_n st = Inr (n, lambda_add_term m n st)"
      unfolding up using True by (simp add: Let_def chk ebind_def)
    moreover have "find (lambda_meets eps x0) [n..<n1] = Some n" unfolding up using True by simp
    ultimately show ?thesis using a by auto
  next
    case False
    have kl: "lambda_loop rules eps m [x0] [n..<n1] last_n st
        = lambda_loop rules eps m [x0] [Suc n..<n1] n (lambda_update [x0] n (lambda_add_term m n st))"
      unfolding up using False by (simp add: Let_def chk ebind_def)
    have f: "find (lambda_meets eps x0) [n..<n1] = find (lambda_meets eps x0) [Suc n..<n1]"
      unfolding up using False by simp
    have l: "last (last_n # [n..<n1]) = last (n # [Suc n..<n1])"
      unfolding up by simp
    have "d = n1 - Suc n" using Suc.hyps(2) by simp
    from Suc.hyps(1)[OF this lambda_update_inv[OF cnt' Suc.prems], of n]
    show ?thesis unfolding kl f l .
  qed
qed

lemma lambda_flat_single:
  fixes x :: "real list"
  assumes one: "filter (\<lambda>v. \<bar>v\<bar> < 1) x = [x0]"
  shows "lambda_flat rules eps x =
     (case find (lambda_meets eps x0) [0..<MAX_TAYLOR_ITERATIONS] of
        Some k \<Rightarrow> Inr (map (\<lambda>v. if \<bar>v\<bar> < 1 then lambda_partial (Suc k) v else lambda_closed v) x)
      | None \<Rightarrow> Inl (RuntimeError ''Lambda calculation failed to converge after 1000 iterations''))"
proof -
  define m where "m = map (\<lambda>v. \<bar>v\<bar> < 1) x"
  define c where "c = map lambda_closed (compress (map Not m) x)"
  define st0 where "st0 = \<lparr>lam_result = place (map Not m) (map (\<lambda>_. 0) x) c,
                 lam_jx_to_n = map (\<lambda>_. 1) [x0],
                 lam_abs_x_to_n_plus_1 = map abs [x0],
                 lam_inv_factorial = 1\<rparr>"
  define M where "M = MAX_TAYLOR_ITERATIONS"
  have cx: "compress m x = [x0]" by (simp add: m_def one compress_map_filter)
  have lm: "length m = length x" by (simp add: m_def)
  have cnt: "length (filter id m) = 1"
    using one by (simp add: m_def filter_map comp_def)
  have cntn: "length (filter id (map Not m)) = length (compress (map Not m) x)"
    by (simp add: length_compress m_def)
  have flat: "lambda_flat rules eps x =
      ebind (lambda_loop rules eps m [x0] [0..<M + 1] 0 st0)
           (\<lambda>(n, st).
              if n = M
              then Inl (RuntimeError ''Lambda calculation failed to converge after 1000 iterations'')
              else Inr (lam_result st))"
    unfolding lambda_flat_def Let_def st0_def m_def[symmetric] cx c_def M_def ..
  have a1: "compress m (place (map Not m) (map (\<lambda>_. 0) x) c) = compress m (map (\<lambda>_. 0) x)"
    by (rule compress_place_other) (simp add: lm)
  have a2: "compress (map Not m) (place (map Not m) (map (\<lambda>_. 0) x) c) = c"
  proof (rule compress_place)
    show "length (map (\<lambda>_. 0::complex) x) = length (map Not m)" by (simp add: lm)
    show "length c = length (filter id (map Not m))"
      using cntn by (simp only: c_def length_map)
  qed
  have z: "compress m (map (\<lambda>_. 0::complex) x) = [0]"
    by (simp add: compress_map cx)
  have inv0: "lambda_inv m [x0] c 0 st0"
    unfolding lambda_inv_def st0_def
    by (simp add: a1 a2 z lm lambda_partial_def)
  from lambda_loop_single[OF cnt inv0, of rules eps "M + 1" 0]
  obtain st' where lp: "lambda_loop rules eps m [x0] [0..<M + 1] 0 st0
            = Inr (case find (lambda_meets eps x0) [0..<M + 1] of
                     Some k \<Rightarrow> k | None \<Rightarrow> last (0 # [0..<M + 1]), st')"
    and l': "length (lam_result st') = length m"
    and d': "compress (map Not m) (lam_result st') = c"
    and c': "\<And>k. find (lambda_meets eps x0) [0..<M + 1] = Some k \<Longrightarrow>
               compress m (lam_result st') = [lambda_partial (Suc k) x0]"
    by blast
  have fs: "find (lambda_meets eps x0) [0..<M + 1]
      = (case find (lambda_meets eps x0) [0..<M] of
           None \<Rightarrow> (if lambda_meets eps x0 M then Some M else None) | Some k \<Rightarrow> Some k)"
    using find_upt_Suc[of "lambda_meets eps x0" M] by simp
  have lastM: "last (0 # [0..<M + 1]) = M" by simp
  show ?thesis
  proof (cases "find (lambda_meets eps x0) [0..<M]")
    case None
    then have "(case find (lambda_meets eps x0) [0..<M + 1] of
                     Some k \<Rightarrow> k | None \<Rightarrow> last (0 # [0..<M + 1])) = M"
      unfolding fs lastM by simp
    then show ?thesis
      unfolding flat lp using None by (simp add: ebind_def M_def)
  next
    case (Some k)
    then have kM: "k < M"
      by (metis find_Some_iff atLeastLessThan_iff nth_mem set_upt)
    have f1: "find (lambda_meets eps x0) [0..<M + 1] = Some k" unfolding fs using Some by simp
    have c1: "compress (map (\<lambda>v. \<bar>v\<bar> < 1) x) (lam_result st')
               = map (lambda_partial (Suc k)) (compress (map (\<lambda>v. \<bar>v\<bar> < 1) x) x)"
      using c'[OF f1] cx by (simp add: m_def)
    have d1: "compress (map Not (map (\<lambda>v. \<bar>v\<bar> < 1) x)) (lam_result st')
               = map lambda_closed (compress (map Not (map (\<lambda>v. \<bar>v\<bar> < 1) x)) x)"
      using d' unfolding c_def m_def .
    have l1: "length (lam_result st') = length x" using l' lm by simp
    have "lam_result st' = map (\<lambda>v. if \<bar>v\<bar> < 1 then lambda_partial (Suc k) v else lambda_closed v) x"
      by (rule merge_by_mask[OF l1 c1 d1])
    then show ?thesis
      unfolding flat lp f1 using Some kM by (simp add: ebind_def M_def)
  qed
qed

subsection \<open>Failure to converge\<close>

lemma lambda_fn_single:
  assumes "filter (\<lambda>v. \<bar>v\<bar> < 1) (ravel y) = [y0]"
  shows "lambda_fn rules eps y =
     (case find (lambda_meets eps y0) [0..<MAX_TAYLOR_ITERATIONS] of
        Some k \<Rightarrow> Inr (unravel (shape y)
                   (map (\<lambda>v. if \<bar>v\<bar> < 1 then lambda_partial (Suc k) v else lambda_closed v) (ravel y)))
      | None \<Rightarrow> Inl (RuntimeError ''Lambda calculation failed to converge after 1000 iterations''))"
  unfolding lambda_fn_def lambda_flat_single[OF assms]
  by (simp add: ebind_def split: option.splits)

lemma phi_and_psi_taylor:
  "phi_and_psi eps x =
     (let xx = filter (\<lambda>v. \<bar>v\<bar> < 1) (ravel x) in
      if (\<exists>k\<le>MAX_TAYLOR_ITERATIONS. phi_meets eps xx k) \<and> (\<exists>k\<le>MAX_TAYLOR_ITERATIONS. psi_meets eps xx k)
      then Inr (unravel (shape x)
                  (map (\<lambda>v. if \<bar>v\<bar> < 1
                             then phi_partial (taylor_count (phi_meets eps xx) (MAX_TAYLOR_ITERATIONS + 1)) v
                             else phi_closed v) (ravel x)),
                unravel (shape x)
                  (map (\<lambda>v. if \<bar>v\<bar> < 1
                             then psi_partial (taylor_count (psi_meets eps xx) (MAX_TAYLOR_ITERATIONS + 1)) v
                             else psi_closed v) (ravel x)))
      else Inl (RuntimeError ''Phi and Psi calculation failed to converge after 1000 iterations''))"
  unfolding phi_and_psi_def phi_and_psi_flat_taylor Let_def
  by (simp add: ebind_def)

lemma lambda_meets_zero: "\<not> lambda_meets eps 0 k"
proof -
  have "Im (lambda_term n 0) = 0" for n
    by (cases n) (simp_all add: lambda_term_def)
  then have "Im (lambda_partial (Suc k) 0) = 0"
    unfolding lambda_partial_def by (simp del: sum.lessThan_Suc)
  then show ?thesis by (simp add: lambda_meets_def lambda_bound_def)
qed

lemma phi_meets_zero: "\<not> phi_meets eps [0] k"
proof -
  have "Im (phi_term n 0) = 0" for n
    by (cases n) (simp_all add: phi_term_def)
  then have "Im (phi_partial (Suc k) 0) = 0"
    unfolding phi_partial_def by (simp del: sum.lessThan_Suc)
  then show ?thesis by (simp add: phi_meets_def phi_bound_def)
qed

lemma ravel_array1_single: "ravel (array1 [v]) = [v]"
  by (simp add: ravel_def array1_def upt_rec)

text \<open>
  C6.  As the code has it: a failure to converge is reported by Python's built-in
  \<open>RuntimeError\<close> with a fixed message, and the call returns no array.
  \<open>_phi_and_psi\<close> raises exactly when Phi or Psi has met its bound in none of the passes
  \<open>n = 0, ..., 1000\<close> over the elements with \<open>|x| < 1\<close>; the message is
  "Phi and Psi calculation failed to converge after 1000 iterations" whichever of the two
  kernels failed, so the error names the routine and the constant 1000 and nothing else.
  Otherwise the call returns the merged arrays.  \<open>_lambda\<close>, on an argument with exactly
  one element with \<open>|x| < 1\<close>, raises
  "Lambda calculation failed to converge after 1000 iterations" exactly when the bound is
  met in none of the passes \<open>n = 0, ..., 999\<close>, and returns the merged array otherwise.
\<close>

theorem taylor_failure_raises_runtime_error:
  "phi_and_psi eps x =
     (let xx = filter (\<lambda>v. \<bar>v\<bar> < 1) (ravel x) in
      if (\<exists>k\<le>MAX_TAYLOR_ITERATIONS. phi_meets eps xx k) \<and> (\<exists>k\<le>MAX_TAYLOR_ITERATIONS. psi_meets eps xx k)
      then Inr (unravel (shape x)
                  (map (\<lambda>v. if \<bar>v\<bar> < 1
                             then phi_partial (taylor_count (phi_meets eps xx) (MAX_TAYLOR_ITERATIONS + 1)) v
                             else phi_closed v) (ravel x)),
                unravel (shape x)
                  (map (\<lambda>v. if \<bar>v\<bar> < 1
                             then psi_partial (taylor_count (psi_meets eps xx) (MAX_TAYLOR_ITERATIONS + 1)) v
                             else psi_closed v) (ravel x)))
      else Inl (RuntimeError ''Phi and Psi calculation failed to converge after 1000 iterations''))
   \<and> (filter (\<lambda>v. \<bar>v\<bar> < 1) (ravel y) = [y0] \<longrightarrow>
      lambda_fn rules eps y =
        (case find (lambda_meets eps y0) [0..<MAX_TAYLOR_ITERATIONS] of
           Some k \<Rightarrow> Inr (unravel (shape y)
                      (map (\<lambda>v. if \<bar>v\<bar> < 1 then lambda_partial (Suc k) v else lambda_closed v) (ravel y)))
         | None \<Rightarrow> Inl (RuntimeError ''Lambda calculation failed to converge after 1000 iterations'')))"
  using phi_and_psi_taylor[of eps x] lambda_fn_single[of y y0 rules eps] by blast

theorem taylor_failure_raises_runtime_error_witness:
  "filter (\<lambda>v. \<bar>v\<bar> < 1) (ravel (array1 [0 :: real])) = [0] \<and>
   lambda_fn Legacy (1 / 2 ^ 52) (array1 [0]) =
     Inl (RuntimeError ''Lambda calculation failed to converge after 1000 iterations'') \<and>
   phi_and_psi (1 / 2 ^ 52) (array1 [0]) =
     Inl (RuntimeError ''Phi and Psi calculation failed to converge after 1000 iterations'')"
proof -
  have f: "filter (\<lambda>v. \<bar>v\<bar> < 1) (ravel (array1 [0 :: real])) = [0]"
    by (simp add: ravel_array1_single)
  have n: "find (lambda_meets (1 / 2 ^ 52) 0) [0..<MAX_TAYLOR_ITERATIONS] = None"
    by (simp add: find_None_iff lambda_meets_zero)
  from taylor_failure_raises_runtime_error
         [of "1 / 2 ^ 52" "array1 [0]" "array1 [0]" 0 Legacy]
  show ?thesis
    unfolding Let_def f n by (simp add: phi_meets_zero)
qed

theorem convergence_error_same_for_phi_and_psi:
  "phi_and_psi_outcome \<lparr>phi = [1], psi = [1], jx_to_n = [1], abs_x_to_n_plus_1 = [1],
       inv_factorial = 1, phi_converged = False, psi_converged = True\<rparr>
     = Inl (RuntimeError ''Phi and Psi calculation failed to converge after 1000 iterations'') \<and>
   phi_and_psi_outcome \<lparr>phi = [1], psi = [1], jx_to_n = [1], abs_x_to_n_plus_1 = [1],
       inv_factorial = 1, phi_converged = True, psi_converged = False\<rparr>
     = Inl (RuntimeError ''Phi and Psi calculation failed to converge after 1000 iterations'')"
  by (simp add: phi_and_psi_outcome_def)

subsection \<open>The calls over the store\<close>

lemma length_indices: "length (indices sh) = prod_list sh"
proof (induction sh)
  case Nil
  show ?case by simp
next
  case (Cons n s)
  show ?case by (simp add: length_concat comp_def Cons sum_list_triv)
qed

lemma concat_blocks:
  "concat (map (\<lambda>i. map (\<lambda>j. i * p + j) [0..<p]) [0..<n]) = [0..<n * p]"
proof (induction n)
  case 0
  show ?case by simp
next
  case (Suc n)
  have "map (\<lambda>j. n * p + j) [0..<p] = [n * p..<n * p + p]"
    using map_add_upt[of "n * p" p] by (simp add: add.commute)
  then show ?case
    using Suc upt_add_eq_append[of 0 "n * p" p] by (simp add: add.commute)
qed

lemma map_flat_index_indices: "map (flat_index sh) (indices sh) = [0..<prod_list sh]"
proof (induction sh)
  case Nil
  show ?case by simp
next
  case (Cons n s)
  have "map (flat_index (n # s)) (indices (n # s))
      = concat (map (\<lambda>i. map (\<lambda>j. i * prod_list s + j) (map (flat_index s) (indices s))) [0..<n])"
    by (simp add: map_concat comp_def)
  also have "\<dots> = [0..<n * prod_list s]"
    unfolding Cons by (rule concat_blocks)
  finally show ?case by simp
qed

lemma ravel_unravel: "length l = prod_list sh \<Longrightarrow> ravel (unravel sh l) = l"
proof -
  assume len: "length l = prod_list sh"
  have "ravel (unravel sh l) = map ((!) l) (map (flat_index sh) (indices sh))"
    by (simp add: ravel_def unravel_def comp_def)
  also have "\<dots> = map ((!) l) [0..<length l]"
    unfolding map_flat_index_indices len ..
  also have "\<dots> = l" by (rule map_nth)
  finally show ?thesis .
qed

lemma length_ravel: "length (ravel x) = prod_list (shape x)"
  by (simp add: ravel_def length_indices)

lemma shape_unravel [simp]: "shape (unravel sh l) = sh"
  by (simp add: unravel_def)

lemma touches_only_refl: "touches_only W s s"
  by (simp add: touches_only_def)

lemma touches_only_trans:
  "touches_only W s s1 \<Longrightarrow> touches_only W s1 s2 \<Longrightarrow> touches_only W s s2"
  by (simp add: touches_only_def)

lemma phi_pass_st_sim:
  assumes R: "kernel_rel sh p q j a st s" and d: "distinct [p, q, j, a]"
  shows "\<exists>s'. phi_pass_st eps m xx p j a n (inv_factorial st) s
                = (Inr (phi_converged (phi_pass eps m xx n st)), s') \<and>
              kernel_rel sh p q j a (phi_pass eps m xx n st) s' \<and> touches_only {p, q, j, a} s s'"
proof -
  from R have cp: "cells s p = Some (ComplexArr (unravel sh (phi st)))"
    and cq: "cells s q = Some (ComplexArr (unravel sh (psi st)))"
    and cj: "cells s j = Some (ComplexVec (jx_to_n st))"
    and ca: "cells s a = Some (RealVec (abs_x_to_n_plus_1 st))"
    and lp: "length (phi st) = prod_list sh" and lq: "length (psi st) = prod_list sh"
    by (auto simp: kernel_rel_def)
  define st' where "st' = phi_pass eps m xx n st"
  define s' where "s' = s\<lparr>cells := (cells s)(p \<mapsto> ComplexArr (unravel sh (phi st')))\<rparr>"
  have lp': "length (phi st') = prod_list sh"
    by (simp add: st'_def phi_pass_def Let_def lp)
  have rt: "ravel (unravel sh (phi st)) = phi st" by (rule ravel_unravel[OF lp])
  have rt': "ravel (unravel sh (phi st')) = phi st'" by (rule ravel_unravel[OF lp'])
  have pj: "p \<noteq> j" "p \<noteq> a" "p \<noteq> q" using d by auto
  have run: "phi_pass_st eps m xx p j a n (inv_factorial st) s = (Inr (phi_converged st'), s')"
    unfolding phi_pass_st_def masked_iadd_def sbind_def fetch_def assign_def sreturn_def
    using pj by (simp add: cp cj ca rt Let_def s'_def st'_def phi_pass_def ravel_unravel lp)
  have rel: "kernel_rel sh p q j a st' s'"
    unfolding kernel_rel_def s'_def using pj cq cj ca lq lp'
    by (simp add: st'_def phi_pass_frame)
  have "touches_only {p, q, j, a} s s'"
    by (simp add: touches_only_def s'_def)
  with run rel show ?thesis unfolding st'_def by blast
qed

lemma psi_pass_st_sim:
  assumes R: "kernel_rel sh p q j a st s" and d: "distinct [p, q, j, a]"
  shows "\<exists>s'. psi_pass_st eps m xx q j a n (inv_factorial st) s
                = (Inr (psi_converged (psi_pass eps m xx n st)), s') \<and>
              kernel_rel sh p q j a (psi_pass eps m xx n st) s' \<and> touches_only {p, q, j, a} s s'"
proof -
  from R have cp: "cells s p = Some (ComplexArr (unravel sh (phi st)))"
    and cq: "cells s q = Some (ComplexArr (unravel sh (psi st)))"
    and cj: "cells s j = Some (ComplexVec (jx_to_n st))"
    and ca: "cells s a = Some (RealVec (abs_x_to_n_plus_1 st))"
    and lp: "length (phi st) = prod_list sh" and lq: "length (psi st) = prod_list sh"
    by (auto simp: kernel_rel_def)
  define st' where "st' = psi_pass eps m xx n st"
  define s' where "s' = s\<lparr>cells := (cells s)(q \<mapsto> ComplexArr (unravel sh (psi st')))\<rparr>"
  have lq': "length (psi st') = prod_list sh"
    by (simp add: st'_def psi_pass_def Let_def lq)
  have pj: "q \<noteq> j" "q \<noteq> a" "p \<noteq> q" using d by auto
  have run: "psi_pass_st eps m xx q j a n (inv_factorial st) s = (Inr (psi_converged st'), s')"
    unfolding psi_pass_st_def masked_iadd_def sbind_def fetch_def assign_def sreturn_def
    using pj by (simp add: cq cj ca Let_def s'_def st'_def psi_pass_def ravel_unravel lq)
  have rel: "kernel_rel sh p q j a st' s'"
    unfolding kernel_rel_def s'_def using pj cp cj ca lp lq'
    by (simp add: st'_def psi_pass_frame)
  have "touches_only {p, q, j, a} s s'"
    by (simp add: touches_only_def s'_def)
  with run rel show ?thesis unfolding st'_def by blast
qed

lemma kernel_update_st_sim:
  assumes R: "kernel_rel sh p q j a st s" and d: "distinct [p, q, j, a]"
  shows "\<exists>s'. kernel_update_st xx j a n (inv_factorial st) s
                = (Inr (inv_factorial (kernel_update xx n st)), s') \<and>
              kernel_rel sh p q j a (kernel_update xx n st) s' \<and> touches_only {p, q, j, a} s s'"
proof -
  from R have cp: "cells s p = Some (ComplexArr (unravel sh (phi st)))"
    and cq: "cells s q = Some (ComplexArr (unravel sh (psi st)))"
    and cj: "cells s j = Some (ComplexVec (jx_to_n st))"
    and ca: "cells s a = Some (RealVec (abs_x_to_n_plus_1 st))"
    and lp: "length (phi st) = prod_list sh" and lq: "length (psi st) = prod_list sh"
    by (auto simp: kernel_rel_def)
  define st' where "st' = kernel_update xx n st"
  define s' where "s' = s\<lparr>cells := (cells s)(j \<mapsto> ComplexVec (jx_to_n st'),
                                              a \<mapsto> RealVec (abs_x_to_n_plus_1 st'))\<rparr>"
  have ne: "j \<noteq> a" "p \<noteq> j" "p \<noteq> a" "q \<noteq> j" "q \<noteq> a" using d by auto
  have run: "kernel_update_st xx j a n (inv_factorial st) s = (Inr (inv_factorial st'), s')"
    unfolding kernel_update_st_def sbind_def fetch_def assign_def sreturn_def
    using ne by (simp add: cj ca s'_def st'_def kernel_update_def)
  have rel: "kernel_rel sh p q j a st' s'"
    unfolding kernel_rel_def s'_def using ne cp cq lp lq
    by (simp add: st'_def kernel_update_frame)
  have "touches_only {p, q, j, a} s s'"
    by (simp add: touches_only_def s'_def)
  with run rel show ?thesis unfolding st'_def by blast
qed

lemma kernel_pass_st_sim:
  assumes R: "kernel_rel sh p q j a st s" and d: "distinct [p, q, j, a]"
  shows "\<exists>s'. kernel_pass_st eps m xx p q j a n (inv_factorial st) (phi_converged st) (psi_converged st) s
                = (Inr (inv_factorial (kernel_pass eps m xx n st),
                        phi_converged (kernel_pass eps m xx n st),
                        psi_converged (kernel_pass eps m xx n st)), s') \<and>
              kernel_rel sh p q j a (kernel_pass eps m xx n st) s' \<and> touches_only {p, q, j, a} s s'"
proof -
  define st1 where "st1 = (if \<not> phi_converged st then phi_pass eps m xx n st else st)"
  define st2 where "st2 = (if \<not> psi_converged st1 then psi_pass eps m xx n st1 else st1)"
  have kp: "kernel_pass eps m xx n st = kernel_update xx n st2"
    by (simp add: kernel_pass_def Let_def st1_def st2_def)
  have i1: "inv_factorial st1 = inv_factorial st" "psi_converged st1 = psi_converged st"
    by (simp_all add: st1_def phi_pass_frame)
  have i2: "inv_factorial st2 = inv_factorial st" "phi_converged st2 = phi_converged st1"
    by (simp_all add: st2_def psi_pass_frame i1)
  obtain s1 where r1: "(if \<not> phi_converged st
            then phi_pass_st eps m xx p j a n (inv_factorial st)
            else sreturn (phi_converged st)) s = (Inr (phi_converged st1), s1)"
    and rel1: "kernel_rel sh p q j a st1 s1" and t1: "touches_only {p, q, j, a} s s1"
  proof (cases "phi_converged st")
    case True
    then show ?thesis using that[of s] R by (simp add: st1_def sreturn_def touches_only_refl)
  next
    case False
    with phi_pass_st_sim[OF R d, of eps m xx n] show ?thesis using that by (auto simp: st1_def)
  qed
  obtain s2 where r2: "(if \<not> psi_converged st
            then psi_pass_st eps m xx q j a n (inv_factorial st)
            else sreturn (psi_converged st)) s1 = (Inr (psi_converged st2), s2)"
    and rel2: "kernel_rel sh p q j a st2 s2" and t2: "touches_only {p, q, j, a} s1 s2"
  proof (cases "psi_converged st")
    case True
    then show ?thesis using that[of s1] rel1 by (simp add: st2_def i1 sreturn_def touches_only_refl)
  next
    case False
    with psi_pass_st_sim[OF rel1 d, of eps m xx n] show ?thesis
      using that by (auto simp: st2_def i1)
  qed
  from kernel_update_st_sim[OF rel2 d, of xx n]
  obtain s3 where r3: "kernel_update_st xx j a n (inv_factorial st) s2
                = (Inr (inv_factorial (kernel_update xx n st2)), s3)"
    and rel3: "kernel_rel sh p q j a (kernel_update xx n st2) s3"
    and t3: "touches_only {p, q, j, a} s2 s3"
    by (auto simp: i2)
  have fl: "phi_converged (kernel_update xx n st2) = phi_converged st1"
    "psi_converged (kernel_update xx n st2) = psi_converged st2"
    by (simp_all add: kernel_update_frame i2)
  have run: "kernel_pass_st eps m xx p q j a n (inv_factorial st) (phi_converged st) (psi_converged st) s
      = (Inr (inv_factorial (kernel_update xx n st2), phi_converged st1, psi_converged st2), s3)"
    unfolding kernel_pass_st_def sbind_def r1 using r2 r3 by (simp add: sreturn_def)
  from t1 t2 t3 have "touches_only {p, q, j, a} s s3"
    by (blast intro: touches_only_trans)
  with run rel3 show ?thesis unfolding kp fl by blast
qed

lemma kernel_loop_st_sim:
  assumes d: "distinct [p, q, j, a]"
  shows "kernel_rel sh p q j a st s \<Longrightarrow>
     \<exists>s'. kernel_loop_st eps m xx p q j a ns (inv_factorial st) (phi_converged st) (psi_converged st) s
                = (Inr (inv_factorial (kernel_loop eps m xx ns st),
                        phi_converged (kernel_loop eps m xx ns st),
                        psi_converged (kernel_loop eps m xx ns st)), s') \<and>
              kernel_rel sh p q j a (kernel_loop eps m xx ns st) s' \<and> touches_only {p, q, j, a} s s'"
proof (induction ns arbitrary: st s)
  case Nil
  then show ?case by (simp add: touches_only_refl)
next
  case (Cons n ns)
  show ?case
  proof (cases "phi_converged st \<and> psi_converged st")
    case True
    with Cons.prems show ?thesis by (simp add: touches_only_refl)
  next
    case False
    from kernel_pass_st_sim[OF Cons.prems d, of eps m xx n]
    obtain s1 where r1: "kernel_pass_st eps m xx p q j a n (inv_factorial st) (phi_converged st) (psi_converged st) s
                = (Inr (inv_factorial (kernel_pass eps m xx n st),
                        phi_converged (kernel_pass eps m xx n st),
                        psi_converged (kernel_pass eps m xx n st)), s1)"
      and rel1: "kernel_rel sh p q j a (kernel_pass eps m xx n st) s1"
      and t1: "touches_only {p, q, j, a} s s1"
      by blast
    from Cons.IH[OF rel1]
    obtain s2 where r2: "kernel_loop_st eps m xx p q j a ns (inv_factorial (kernel_pass eps m xx n st))
                 (phi_converged (kernel_pass eps m xx n st)) (psi_converged (kernel_pass eps m xx n st)) s1
                = (Inr (inv_factorial (kernel_loop eps m xx ns (kernel_pass eps m xx n st)),
                        phi_converged (kernel_loop eps m xx ns (kernel_pass eps m xx n st)),
                        psi_converged (kernel_loop eps m xx ns (kernel_pass eps m xx n st))), s2)"
      and rel2: "kernel_rel sh p q j a (kernel_loop eps m xx ns (kernel_pass eps m xx n st)) s2"
      and t2: "touches_only {p, q, j, a} s1 s2"
      by blast
    have "touches_only {p, q, j, a} s s2" using t1 t2 by (rule touches_only_trans)
    with False r1 r2 rel2 show ?thesis by auto
  qed
qed

lemma extends_refl: "extends s s"
  by (simp add: extends_def)

lemma extends_trans: "extends s s1 \<Longrightarrow> extends s1 s2 \<Longrightarrow> extends s s2"
  by (auto simp: extends_def)

lemma extends_cell: "extends s s' \<Longrightarrow> b < next_free s \<Longrightarrow> cells s' b = cells s b"
  by (simp add: extends_def)

lemma extends_next: "extends s s' \<Longrightarrow> b < next_free s \<Longrightarrow> b < next_free s'"
  by (simp add: extends_def)

lemma phi_and_psi_st_sim:
  "\<exists>r s'. phi_and_psi_st eps x s = (r, s') \<and> extends s s' \<and>
     (case phi_and_psi eps x of
        Inl e \<Rightarrow> r = Inl e
      | Inr (pa, qa) \<Rightarrow>
          \<exists>p q. r = Inr (p, q) \<and> p < next_free s' \<and> q < next_free s' \<and>
                cells s' p = Some (ComplexArr pa) \<and> cells s' q = Some (ComplexArr qa))"
proof -
  define xs where "xs = ravel x"
  define sh where "sh = shape x"
  define m where "m = map (\<lambda>x. \<bar>x\<bar> < 1) xs"
  define nm where "nm = map Not m"
  define xx where "xx = compress m xs"
  define n where "n = next_free s"
  define st0 where "st0 = \<lparr>phi = place nm (map (\<lambda>_. 0) xs) (map phi_closed (compress nm xs)),
                 psi = place nm (map (\<lambda>_. 0) xs) (map psi_closed (compress nm xs)),
                 jx_to_n = map (\<lambda>_. 1) xx,
                 abs_x_to_n_plus_1 = map abs xx,
                 inv_factorial = 1,
                 phi_converged = False, psi_converged = False\<rparr>"
  define s6 where "s6 = s\<lparr>cells := (cells s)(n \<mapsto> ComplexArr (unravel sh (phi st0)),
                                            Suc n \<mapsto> ComplexArr (unravel sh (psi st0)),
                                            Suc (Suc n) \<mapsto> ComplexVec (jx_to_n st0),
                                            Suc (Suc (Suc n)) \<mapsto> RealVec (abs_x_to_n_plus_1 st0)),
                          next_free := Suc (Suc (Suc (Suc n)))\<rparr>"
  define fin where "fin = kernel_loop eps m xx [0..<MAX_TAYLOR_ITERATIONS + 1] st0"
  have lx: "length xs = prod_list sh" by (simp add: xs_def sh_def length_ravel)
  have rz: "ravel (unravel sh (map (\<lambda>_. 0::complex) xs)) = map (\<lambda>_. 0) xs"
    by (rule ravel_unravel) (simp add: lx)
  have pure: "phi_and_psi eps x =
      (if \<not> (phi_converged fin \<and> psi_converged fin)
       then Inl (RuntimeError ''Phi and Psi calculation failed to converge after 1000 iterations'')
       else Inr (unravel sh (phi fin), unravel sh (psi fin)))"
    unfolding phi_and_psi_def phi_and_psi_flat_def phi_and_psi_outcome_def Let_def
      xs_def[symmetric] m_def[symmetric] nm_def[symmetric] xx_def[symmetric] st0_def[symmetric]
      fin_def[symmetric] sh_def[symmetric]
    by (simp add: ebind_def)
  have run: "phi_and_psi_st eps x s =
      (case kernel_loop_st eps m xx n (Suc n) (Suc (Suc n)) (Suc (Suc (Suc n)))
              [0..<MAX_TAYLOR_ITERATIONS + 1] 1 False False s6 of
         (Inl e, s') \<Rightarrow> (Inl e, s')
       | (Inr (inv_fact, phi_conv, psi_conv), s') \<Rightarrow>
           if \<not> (phi_conv \<and> psi_conv)
           then (Inl (RuntimeError ''Phi and Psi calculation failed to converge after 1000 iterations''), s')
           else (Inr (n, Suc n), s'))"
    unfolding phi_and_psi_st_def Let_def xs_def[symmetric] m_def[symmetric] nm_def[symmetric]
      xx_def[symmetric] sh_def[symmetric]
    unfolding sbind_def alloc_def masked_assign_def fetch_def assign_def lift_result_def
      sreturn_def Let_def
    by (simp add: rz n_def[symmetric] s6_def st0_def fun_upd_twist split: prod.splits sum.splits)
  have rel: "kernel_rel sh n (Suc n) (Suc (Suc n)) (Suc (Suc (Suc n))) st0 s6"
    unfolding kernel_rel_def s6_def by (simp add: st0_def lx)
  have d: "distinct [n, Suc n, Suc (Suc n), Suc (Suc (Suc n))]" by simp
  from kernel_loop_st_sim[OF d rel, of eps m xx "[0..<MAX_TAYLOR_ITERATIONS + 1]"]
  obtain s7 where lp: "kernel_loop_st eps m xx n (Suc n) (Suc (Suc n)) (Suc (Suc (Suc n)))
              [0..<MAX_TAYLOR_ITERATIONS + 1] 1 False False s6
            = (Inr (inv_factorial fin, phi_converged fin, psi_converged fin), s7)"
    and rel7: "kernel_rel sh n (Suc n) (Suc (Suc n)) (Suc (Suc (Suc n))) fin s7"
    and t7: "touches_only {n, Suc n, Suc (Suc n), Suc (Suc (Suc n))} s6 s7"
    unfolding fin_def by (auto simp: st0_def)
  have ext: "extends s s7"
    using t7 unfolding extends_def touches_only_def s6_def n_def by auto
  have nf: "next_free s7 = Suc (Suc (Suc (Suc n)))"
    using t7 by (simp add: touches_only_def s6_def)
  have cp: "cells s7 n = Some (ComplexArr (unravel sh (phi fin)))"
    and cq: "cells s7 (Suc n) = Some (ComplexArr (unravel sh (psi fin)))"
    using rel7 by (auto simp: kernel_rel_def)
  show ?thesis
  proof (cases "phi_converged fin \<and> psi_converged fin")
    case True
    then have "phi_and_psi_st eps x s = (Inr (n, Suc n), s7)"
      unfolding run lp by simp
    with True ext cp cq nf show ?thesis unfolding pure by simp
  next
    case False
    then have "phi_and_psi_st eps x s =
        (Inl (RuntimeError ''Phi and Psi calculation failed to converge after 1000 iterations''), s7)"
      unfolding run lp by auto
    with False ext show ?thesis unfolding pure by auto
  qed
qed

lemma store_cells_triv: "cells s r = Some v \<Longrightarrow> s\<lparr>cells := (cells s)(r \<mapsto> v)\<rparr> = s"
  by (simp add: fun_upd_idem)

lemma iadd_st_sim:
  assumes "cells s r = Some (ComplexArr v)"
  shows "iadd_st r a s =
     (case iadd v a of
        Inl e \<Rightarrow> (Inl e, s)
      | Inr v' \<Rightarrow> (Inr (), s\<lparr>cells := (cells s)(r \<mapsto> ComplexArr v')\<rparr>))"
  unfolding iadd_st_def sbind_def fetch_def lift_result_def assign_def
  by (simp add: assms split: sum.splits)

lemma add_correction_st_sim:
  assumes t: "cells s times_ref = Some (RealVec ts)"
    and f: "cells s fv_ref = Some (ComplexArr fv)"
    and r: "cells s result_ref = Some (ComplexArr res)"
  shows "add_correction_st enabled times_ref omega_end sel fv_ref fd positive result_ref s =
     (case add_correction enabled (array1 ts) omega_end (sel fv) fd positive res of
        Inl e \<Rightarrow> (Inl e, s)
      | Inr res' \<Rightarrow> (Inr (), s\<lparr>cells := (cells s)(result_ref \<mapsto> ComplexArr res')\<rparr>))"
proof (cases enabled)
  case False
  then show ?thesis
    by (simp add: add_correction_st_def add_correction_def sreturn_def store_cells_triv[OF r])
next
  case True
  define c where "c = ebind omega_end (\<lambda>w. ebind (sel fv) (\<lambda>v. ebind fd (\<lambda>d.
                       fourier_integral_inf_correction (array1 ts) w v d positive)))"
  have pure: "add_correction enabled (array1 ts) omega_end (sel fv) fd positive res
      = ebind c (iadd res)"
    using True unfolding add_correction_def c_def
    by (simp add: ebind_def split: sum.splits)
  have run: "add_correction_st enabled times_ref omega_end sel fv_ref fd positive result_ref s
      = (case c of Inl e \<Rightarrow> (Inl e, s) | Inr a \<Rightarrow> iadd_st result_ref a s)"
    using True unfolding add_correction_st_def sbind_def fetch_def lift_result_def c_def
    by (simp add: t f split: sum.splits)
  show ?thesis
    unfolding pure run
    by (cases c) (simp_all add: ebind_def iadd_st_sim[OF r])
qed

lemma filon_sum_st_sim:
  assumes t: "cells s times_ref = Some (RealVec ts)"
    and f: "cells s fv_ref = Some (ComplexArr fv)"
    and tb: "times_ref < next_free s" and fb: "fv_ref < next_free s"
  shows "\<exists>s'. filon_sum_st eps times_ref omegas fv_ref fd s
               = (filon_sum eps (array1 ts) omegas fv fd, s') \<and> extends s s'"
proof -
  define ka where "ka = kernel_argument (array1 ts) omegas (length (shape (expand_first fv)))"
  show ?thesis
  proof (cases ka)
    case (Inl e)
    then have "filon_sum eps (array1 ts) omegas fv fd = Inl e"
      unfolding filon_sum_def Let_def ka_def[symmetric] by (simp add: ebind_def)
    moreover have "filon_sum_st eps times_ref omegas fv_ref fd s = (Inl e, s)"
      unfolding filon_sum_st_def sbind_def fetch_def lift_result_def
      using Inl by (simp add: t f ka_def[symmetric])
    ultimately show ?thesis using extends_refl by auto
  next
    case (Inr tr)
    obtain delta_omegas exp_omegas x where tr: "tr = (delta_omegas, exp_omegas, x)"
      by (cases tr) auto
    define exp_x where "exp_x = map_array (\<lambda>x. exp (\<i> * complex_of_real x)) x"
    from phi_and_psi_st_sim[of eps x s]
    obtain r1 s1 where run1: "phi_and_psi_st eps x s = (r1, s1)" and e1: "extends s s1"
      and c1: "case phi_and_psi eps x of
        Inl e \<Rightarrow> r1 = Inl e
      | Inr (pa, qa) \<Rightarrow>
          \<exists>p q. r1 = Inr (p, q) \<and> p < next_free s1 \<and> q < next_free s1 \<and>
                cells s1 p = Some (ComplexArr pa) \<and> cells s1 q = Some (ComplexArr qa)"
      by blast
    have pure: "filon_sum eps (array1 ts) omegas fv fd =
        ebind (phi_and_psi eps x) (\<lambda>(phi_x, psi_x).
         ebind (phi_and_psi eps (map_array uminus x)) (\<lambda>(phi_minus_x, psi_minus_x).
           filon_terms delta_omegas exp_omegas exp_x (expand_first fv) (expand_first fd)
             phi_x psi_x phi_minus_x psi_minus_x))"
      unfolding filon_sum_def Let_def ka_def[symmetric] Inr tr exp_x_def
      by (simp add: ebind_def)
    have run: "filon_sum_st eps times_ref omegas fv_ref fd s =
        sbind (phi_and_psi_st eps x) (\<lambda>(phi_x, psi_x).
         sbind (phi_and_psi_st eps (map_array uminus x)) (\<lambda>(phi_minus_x, psi_minus_x).
         sbind (fetch fv_ref) (\<lambda>fv1.
         sbind (fetch phi_minus_x) (\<lambda>pm.
         sbind (fetch phi_x) (\<lambda>p.
         sbind (fetch psi_minus_x) (\<lambda>qm.
         sbind (fetch psi_x) (\<lambda>q.
           lift_result
             (filon_terms delta_omegas exp_omegas exp_x (expand_first (complex_arr fv1))
                (expand_first fd)
                (complex_arr p) (complex_arr q) (complex_arr pm) (complex_arr qm))))))))) s"
      unfolding filon_sum_st_def Let_def exp_x_def
      by (simp add: sbind_def fetch_def lift_result_def t f ka_def[symmetric] Inr tr)
    show ?thesis
    proof (cases "phi_and_psi eps x")
      case (Inl e)
      with c1 have "r1 = Inl e" by simp
      then have "filon_sum_st eps times_ref omegas fv_ref fd s = (Inl e, s1)"
        unfolding run by (simp add: sbind_def run1)
      moreover have "filon_sum eps (array1 ts) omegas fv fd = Inl e"
        unfolding pure Inl by (simp add: ebind_def)
      ultimately show ?thesis using e1 by auto
    next
      case (Inr pq)
      obtain pa qa where pq: "pq = (pa, qa)" by (cases pq) auto
      from c1 Inr pq obtain p q where r1: "r1 = Inr (p, q)"
        and pb: "p < next_free s1" and qb: "q < next_free s1"
        and cp: "cells s1 p = Some (ComplexArr pa)" and cq: "cells s1 q = Some (ComplexArr qa)"
        by auto
      from phi_and_psi_st_sim[of eps "map_array uminus x" s1]
      obtain r2 s2 where run2: "phi_and_psi_st eps (map_array uminus x) s1 = (r2, s2)"
        and e2: "extends s1 s2"
        and c2: "case phi_and_psi eps (map_array uminus x) of
          Inl e \<Rightarrow> r2 = Inl e
        | Inr (pa, qa) \<Rightarrow>
            \<exists>p q. r2 = Inr (p, q) \<and> p < next_free s2 \<and> q < next_free s2 \<and>
                  cells s2 p = Some (ComplexArr pa) \<and> cells s2 q = Some (ComplexArr qa)"
        by blast
      have e12: "extends s s2" using e1 e2 by (rule extends_trans)
      show ?thesis
      proof (cases "phi_and_psi eps (map_array uminus x)")
        case (Inl e)
        with c2 have "r2 = Inl e" by simp
        then have "filon_sum_st eps times_ref omegas fv_ref fd s = (Inl e, s2)"
          unfolding run by (simp add: sbind_def run1 r1 run2)
        moreover have "filon_sum eps (array1 ts) omegas fv fd = Inl e"
          unfolding pure Inr pq Inl by (simp add: ebind_def)
        ultimately show ?thesis using e12 by auto
      next
        case Inr2: (Inr pqm)
        obtain pma qma where pqm: "pqm = (pma, qma)" by (cases pqm) auto
        from c2 Inr2 pqm obtain pm qm where r2: "r2 = Inr (pm, qm)"
          and cpm: "cells s2 pm = Some (ComplexArr pma)"
          and cqm: "cells s2 qm = Some (ComplexArr qma)"
          by auto
        have cp2: "cells s2 p = Some (ComplexArr pa)"
          using extends_cell[OF e2 pb] cp by simp
        have cq2: "cells s2 q = Some (ComplexArr qa)"
          using extends_cell[OF e2 qb] cq by simp
        have cf2: "cells s2 fv_ref = Some (ComplexArr fv)"
          using extends_cell[OF e12 fb] f by simp
        have "filon_sum_st eps times_ref omegas fv_ref fd s =
            (filon_terms delta_omegas exp_omegas exp_x (expand_first fv) (expand_first fd)
               pa qa pma qma, s2)"
          unfolding run
          by (simp add: sbind_def run1 r1 run2 r2 fetch_def lift_result_def cp2 cq2 cpm cqm cf2)
        moreover have "filon_sum eps (array1 ts) omegas fv fd =
            filon_terms delta_omegas exp_omegas exp_x (expand_first fv) (expand_first fd)
               pa qa pma qma"
          unfolding pure Inr pq Inr2 pqm by (simp add: ebind_def)
        ultimately show ?thesis using e12 by auto
      qed
    qed
  qed
qed

lemma fourier_integral_st_sim:
  assumes t: "cells s times_ref = Some (RealVec times_list)"
    and fr: "cells s frequencies_ref = Some (RealVec frequencies)"
    and fv: "cells s func_values_ref = Some (ComplexArr func_values)"
    and tb: "times_ref < next_free s" and fb: "func_values_ref < next_free s"
  shows "\<exists>r s'. fourier_integral_st prim eps times_ref frequencies_ref func_values_ref pos neg s = (r, s') \<and>
       extends s s' \<and>
       (case fourier_integral_fixed_sampling_pchip prim eps times_list frequencies func_values pos neg of
          Inl e \<Rightarrow> r = Inl e
        | Inr res \<Rightarrow> r = Inr (next_free s) \<and> next_free s < next_free s' \<and>
                     cells s' (next_free s) = Some (ComplexArr res))"
proof -
  define n where "n = next_free s"
  define omegas where "omegas = map (\<lambda>f. 2 * pi * f) frequencies"
  define result0 :: "complex ndarray"
    where "result0 = NdArray (length times_list # tl (shape func_values)) (\<lambda>_. 0)"
  define s1 where "s1 = s\<lparr>cells := (cells s)(n \<mapsto> ComplexArr result0), next_free := Suc n\<rparr>"
  have tn: "times_ref \<noteq> n" and fn: "func_values_ref \<noteq> n" using tb fb by (auto simp: n_def)
  have t1: "cells s1 times_ref = Some (RealVec times_list)"
    and f1: "cells s1 func_values_ref = Some (ComplexArr func_values)"
    and r1: "cells s1 n = Some (ComplexArr result0)"
    using tn fn t fv by (simp_all add: s1_def)
  have e1: "extends s s1" by (auto simp: extends_def s1_def n_def)
  have nf1: "next_free s1 = Suc n" by (simp add: s1_def)
  have pure: "fourier_integral_fixed_sampling_pchip prim eps times_list frequencies func_values pos neg =
      ebind (complex_pchip prim omegas func_values omegas 1 0) (\<lambda>func_derivatives.
         ebind (add_correction pos (array1 times_list) (last_elem omegas)
                  (last_item func_values) (last_item func_derivatives) True result0) (\<lambda>result.
         ebind (add_correction neg (array1 times_list) (first_elem omegas)
                  (first_item func_values) (first_item func_derivatives) False result) (\<lambda>result.
         ebind (filon_sum eps (array1 times_list) omegas func_values func_derivatives) (iadd result))))"
    unfolding fourier_integral_fixed_sampling_pchip_def Let_def omegas_def result0_def ..
  have run: "fourier_integral_st prim eps times_ref frequencies_ref func_values_ref pos neg s =
     sbind (lift_result (complex_pchip prim omegas func_values omegas 1 0))
       (\<lambda>func_derivatives.
     sbind (add_correction_st pos times_ref (last_elem omegas) last_item
              func_values_ref (last_item func_derivatives) True n) (\<lambda>_.
     sbind (add_correction_st neg times_ref (first_elem omegas) first_item
              func_values_ref (first_item func_derivatives) False n) (\<lambda>_.
     sbind (filon_sum_st eps times_ref omegas func_values_ref func_derivatives) (\<lambda>terms.
     sbind (iadd_st n terms) (\<lambda>_.
       sreturn n))))) s1"
    unfolding fourier_integral_st_def Let_def
    using fn[unfolded n_def]
    by (simp add: sbind_def fetch_def alloc_def t fr fv omegas_def result0_def s1_def n_def)
  show ?thesis
  proof (cases "complex_pchip prim omegas func_values omegas 1 0")
    case (Inl e)
    then have "fourier_integral_st prim eps times_ref frequencies_ref func_values_ref pos neg s = (Inl e, s1)"
      unfolding run by (simp add: sbind_def lift_result_def)
    moreover have "fourier_integral_fixed_sampling_pchip prim eps times_list frequencies func_values pos neg = Inl e"
      unfolding pure Inl by (simp add: ebind_def)
    ultimately show ?thesis using e1 by auto
  next
    case (Inr fd)
    note cp = Inr
    have cp': "complex_pchip prim omegas func_values omegas (Suc 0) 0 = Inr fd"
      using cp by simp
    define c1 where "c1 = add_correction pos (array1 times_list) (last_elem omegas)
                  (last_item func_values) (last_item fd) True result0"
    have st1: "add_correction_st pos times_ref (last_elem omegas) last_item
              func_values_ref (last_item fd) True n s1 =
        (case c1 of Inl e \<Rightarrow> (Inl e, s1)
         | Inr res' \<Rightarrow> (Inr (), s1\<lparr>cells := (cells s1)(n \<mapsto> ComplexArr res')\<rparr>))"
      unfolding c1_def by (rule add_correction_st_sim[OF t1 f1 r1])
    show ?thesis
    proof (cases c1)
      case (Inl e)
      then have "fourier_integral_st prim eps times_ref frequencies_ref func_values_ref pos neg s = (Inl e, s1)"
        unfolding run by (simp add: sbind_def lift_result_def cp' st1)
      moreover have "fourier_integral_fixed_sampling_pchip prim eps times_list frequencies func_values pos neg = Inl e"
        unfolding pure cp using Inl by (simp add: ebind_def c1_def)
      ultimately show ?thesis using e1 by auto
    next
      case (Inr res1)
      note c1v = Inr
      define s2 where "s2 = s1\<lparr>cells := (cells s1)(n \<mapsto> ComplexArr res1)\<rparr>"
      have t2: "cells s2 times_ref = Some (RealVec times_list)"
        and f2: "cells s2 func_values_ref = Some (ComplexArr func_values)"
        and r2: "cells s2 n = Some (ComplexArr res1)"
        using tn fn t1 f1 by (simp_all add: s2_def)
      have e2: "extends s s2" using e1 by (auto simp: extends_def s2_def n_def)
      define c2 where "c2 = add_correction neg (array1 times_list) (first_elem omegas)
                  (first_item func_values) (first_item fd) False res1"
      have st2: "add_correction_st neg times_ref (first_elem omegas) first_item
              func_values_ref (first_item fd) False n s2 =
        (case c2 of Inl e \<Rightarrow> (Inl e, s2)
         | Inr res' \<Rightarrow> (Inr (), s2\<lparr>cells := (cells s2)(n \<mapsto> ComplexArr res')\<rparr>))"
        unfolding c2_def by (rule add_correction_st_sim[OF t2 f2 r2])
      show ?thesis
      proof (cases c2)
        case (Inl e)
        then have "fourier_integral_st prim eps times_ref frequencies_ref func_values_ref pos neg s = (Inl e, s2)"
          unfolding run by (simp add: sbind_def lift_result_def cp' st1 c1v s2_def[symmetric] st2)
        moreover have "fourier_integral_fixed_sampling_pchip prim eps times_list frequencies func_values pos neg = Inl e"
          unfolding pure cp using Inl c1v by (simp add: ebind_def c1_def[symmetric] c2_def[symmetric])
        ultimately show ?thesis using e2 by auto
      next
        case (Inr res2)
        note c2v = Inr
        define s3 where "s3 = s2\<lparr>cells := (cells s2)(n \<mapsto> ComplexArr res2)\<rparr>"
        have t3: "cells s3 times_ref = Some (RealVec times_list)"
          and f3: "cells s3 func_values_ref = Some (ComplexArr func_values)"
          and r3: "cells s3 n = Some (ComplexArr res2)"
          using tn fn t2 f2 by (simp_all add: s3_def)
        have nf3: "next_free s3 = Suc n" by (simp add: s3_def s2_def nf1)
        have e3: "extends s s3" using e2 by (auto simp: extends_def s3_def n_def)
        have tb3: "times_ref < next_free s3" and fb3: "func_values_ref < next_free s3"
          using tb fb by (simp_all add: nf3 n_def)
        define terms where "terms = filon_sum eps (array1 times_list) omegas func_values fd"
        from filon_sum_st_sim[OF t3 f3 tb3 fb3, of eps omegas fd]
        obtain s4 where st4: "filon_sum_st eps times_ref omegas func_values_ref fd s3 = (terms, s4)"
          and e34: "extends s3 s4"
          unfolding terms_def by blast
        have e4: "extends s s4" using e3 e34 by (rule extends_trans)
        have r4: "cells s4 n = Some (ComplexArr res2)"
          using extends_cell[OF e34, of n] r3 by (simp add: nf3)
        have nb4: "n < next_free s4" using extends_next[OF e34, of n] by (simp add: nf3)
        have prefix: "fourier_integral_st prim eps times_ref frequencies_ref func_values_ref pos neg s =
            (case terms of Inl e \<Rightarrow> (Inl e, s4)
             | Inr a \<Rightarrow> sbind (iadd_st n a) (\<lambda>_. sreturn n) s4)"
          unfolding run
          by (simp add: sbind_def lift_result_def cp' st1 c1v s2_def[symmetric] st2 c2v
                s3_def[symmetric] st4 split: sum.splits)
        have pure': "fourier_integral_fixed_sampling_pchip prim eps times_list frequencies func_values pos neg
            = ebind terms (iadd res2)"
          unfolding pure cp using c1v c2v
          by (simp add: ebind_def c1_def[symmetric] c2_def[symmetric] terms_def)
        show ?thesis
        proof (cases terms)
          case (Inl e)
          then show ?thesis unfolding prefix pure' using e4 by (auto simp: ebind_def)
        next
          case (Inr a)
          note tv = Inr
          show ?thesis
          proof (cases "iadd res2 a")
            case (Inl e)
            then have "fourier_integral_st prim eps times_ref frequencies_ref func_values_ref pos neg s = (Inl e, s4)"
              unfolding prefix tv by (simp add: sbind_def iadd_st_sim[OF r4])
            moreover have "fourier_integral_fixed_sampling_pchip prim eps times_list frequencies func_values pos neg = Inl e"
              unfolding pure' tv using Inl by (simp add: ebind_def)
            ultimately show ?thesis using e4 by auto
          next
            case (Inr res)
            define s5 where "s5 = s4\<lparr>cells := (cells s4)(n \<mapsto> ComplexArr res)\<rparr>"
            have "fourier_integral_st prim eps times_ref frequencies_ref func_values_ref pos neg s = (Inr n, s5)"
              unfolding prefix tv using Inr
              by (simp add: sbind_def iadd_st_sim[OF r4] sreturn_def s5_def)
            moreover have "fourier_integral_fixed_sampling_pchip prim eps times_list frequencies func_values pos neg = Inr res"
              unfolding pure' tv using Inr by (simp add: ebind_def)
            moreover have "extends s s5" using e4 by (auto simp: extends_def s5_def n_def)
            moreover have "cells s5 n = Some (ComplexArr res)" "n < next_free s5"
              using nb4 by (simp_all add: s5_def)
            ultimately show ?thesis unfolding n_def by auto
          qed
        qed
      qed
    qed
  qed
qed

text \<open>
  C8.  Two consecutive calls of the integrator on the same argument objects, from any
  store in which the arguments are allocated (two of them may be the same object).
  Each call leaves every object that existed before it unchanged: the arguments are not
  modified, and the array returned by the first call is not touched by the second.
  Each result is a new object.  Both calls raise the same error or return arrays with
  the same contents, and this outcome is the value of the embedding without a store
  on the contents of the arguments: it depends on nothing else in the store.
\<close>

theorem fourier_integral_deterministic_and_pure:
  assumes "cells s times_ref = Some (RealVec times_list)"
    and "cells s frequencies_ref = Some (RealVec frequencies)"
    and "cells s func_values_ref = Some (ComplexArr func_values)"
    and "times_ref < next_free s" and "frequencies_ref < next_free s"
    and "func_values_ref < next_free s"
  shows "\<exists>r1 s1 r2 s2.
       fourier_integral_st prim eps times_ref frequencies_ref func_values_ref pos neg s = (r1, s1) \<and>
       fourier_integral_st prim eps times_ref frequencies_ref func_values_ref pos neg s1 = (r2, s2) \<and>
       next_free s \<le> next_free s1 \<and> (\<forall>b<next_free s. cells s1 b = cells s b) \<and>
       next_free s1 \<le> next_free s2 \<and> (\<forall>b<next_free s1. cells s2 b = cells s1 b) \<and>
       (case fourier_integral_fixed_sampling_pchip prim eps times_list frequencies func_values pos neg of
          Inl e \<Rightarrow> r1 = Inl e \<and> r2 = Inl e
        | Inr res \<Rightarrow>
            \<exists>a1 a2. r1 = Inr a1 \<and> r2 = Inr a2 \<and>
                    next_free s \<le> a1 \<and> a1 < next_free s1 \<and> next_free s1 \<le> a2 \<and> a2 < next_free s2 \<and>
                    cells s1 a1 = Some (ComplexArr res) \<and>
                    cells s2 a1 = Some (ComplexArr res) \<and> cells s2 a2 = Some (ComplexArr res))"
proof -
  from fourier_integral_st_sim[OF assms(1,2,3,4,6), of prim eps pos neg]
  obtain r1 s1 where run1:
      "fourier_integral_st prim eps times_ref frequencies_ref func_values_ref pos neg s = (r1, s1)"
    and e1: "extends s s1"
    and c1: "case fourier_integral_fixed_sampling_pchip prim eps times_list frequencies func_values pos neg of
          Inl e \<Rightarrow> r1 = Inl e
        | Inr res \<Rightarrow> r1 = Inr (next_free s) \<and> next_free s < next_free s1 \<and>
                     cells s1 (next_free s) = Some (ComplexArr res)"
    by blast
  have t1: "cells s1 times_ref = Some (RealVec times_list)"
    and f1: "cells s1 frequencies_ref = Some (RealVec frequencies)"
    and v1: "cells s1 func_values_ref = Some (ComplexArr func_values)"
    using extends_cell[OF e1] assms by simp_all
  have tb1: "times_ref < next_free s1" and vb1: "func_values_ref < next_free s1"
    using extends_next[OF e1] assms by simp_all
  from fourier_integral_st_sim[OF t1 f1 v1 tb1 vb1, of prim eps pos neg]
  obtain r2 s2 where run2:
      "fourier_integral_st prim eps times_ref frequencies_ref func_values_ref pos neg s1 = (r2, s2)"
    and e2: "extends s1 s2"
    and c2: "case fourier_integral_fixed_sampling_pchip prim eps times_list frequencies func_values pos neg of
          Inl e \<Rightarrow> r2 = Inl e
        | Inr res \<Rightarrow> r2 = Inr (next_free s1) \<and> next_free s1 < next_free s2 \<and>
                     cells s2 (next_free s1) = Some (ComplexArr res)"
    by blast
  have "case fourier_integral_fixed_sampling_pchip prim eps times_list frequencies func_values pos neg of
          Inl e \<Rightarrow> r1 = Inl e \<and> r2 = Inl e
        | Inr res \<Rightarrow>
            \<exists>a1 a2. r1 = Inr a1 \<and> r2 = Inr a2 \<and>
                    next_free s \<le> a1 \<and> a1 < next_free s1 \<and> next_free s1 \<le> a2 \<and> a2 < next_free s2 \<and>
                    cells s1 a1 = Some (ComplexArr res) \<and>
                    cells s2 a1 = Some (ComplexArr res) \<and> cells s2 a2 = Some (ComplexArr res)"
    using c1 c2 extends_cell[OF e2, of "next_free s"]
    by (auto split: sum.splits)
  with run1 run2 e1 e2 show ?thesis
    unfolding extends_def by blast
qed

theorem fourier_integral_deterministic_and_pure_witness:
  "\<exists>s1 s2 a1 a2 res.
     fourier_integral_st secant_prim (1 / 2 ^ 52) 0 1 2 True False
       \<lparr>cells = Map.empty(0 \<mapsto> RealVec [1], 1 \<mapsto> RealVec [0, 1], 2 \<mapsto> ComplexArr (array1 [1, \<i>])),
        next_free = 3\<rparr> = (Inr a1, s1) \<and>
     fourier_integral_st secant_prim (1 / 2 ^ 52) 0 1 2 True False s1 = (Inr a2, s2) \<and>
     cells s2 0 = Some (RealVec [1]) \<and> cells s2 1 = Some (RealVec [0, 1]) \<and>
     cells s2 2 = Some (ComplexArr (array1 [1, \<i>])) \<and>
     3 \<le> a1 \<and> a1 < a2 \<and>
     fourier_integral_fixed_sampling_pchip secant_prim (1 / 2 ^ 52) [1] [0, 1] (array1 [1, \<i>])
       True False = Inr res \<and>
     cells s2 a1 = Some (ComplexArr res) \<and> cells s2 a2 = Some (ComplexArr res)"
proof -
  define s where "s = \<lparr>cells = Map.empty(0 \<mapsto> RealVec [1], 1 \<mapsto> RealVec [0, 1],
                                          2 \<mapsto> ComplexArr (array1 [1, \<i>])),
                       next_free = 3\<rparr>"
  have h: "cells s 0 = Some (RealVec [1])" "cells s 1 = Some (RealVec [0, 1])"
    "cells s 2 = Some (ComplexArr (array1 [1, \<i>]))"
    "0 < next_free s" "1 < next_free s" "2 < next_free s"
    by (simp_all add: s_def)
  from sample_scalar_call[of "1 / 2 ^ 52" True False] obtain res where
    pure: "fourier_integral_fixed_sampling_pchip secant_prim (1 / 2 ^ 52) [1] [0, 1] (array1 [1, \<i>])
       True False = Inr res"
    by blast
  from fourier_integral_deterministic_and_pure[OF h, of secant_prim "1 / 2 ^ 52" True False]
  obtain r1 s1 r2 s2 where
    run1: "fourier_integral_st secant_prim (1 / 2 ^ 52) 0 1 2 True False s = (r1, s1)"
    and run2: "fourier_integral_st secant_prim (1 / 2 ^ 52) 0 1 2 True False s1 = (r2, s2)"
    and k1: "\<forall>b<next_free s. cells s1 b = cells s b"
    and n1: "next_free s \<le> next_free s1"
    and k2: "\<forall>b<next_free s1. cells s2 b = cells s1 b"
    and c: "\<exists>a1 a2. r1 = Inr a1 \<and> r2 = Inr a2 \<and>
                    next_free s \<le> a1 \<and> a1 < next_free s1 \<and> next_free s1 \<le> a2 \<and> a2 < next_free s2 \<and>
                    cells s1 a1 = Some (ComplexArr res) \<and>
                    cells s2 a1 = Some (ComplexArr res) \<and> cells s2 a2 = Some (ComplexArr res)"
    unfolding pure by auto
  from c obtain a1 a2 where r: "r1 = Inr a1" "r2 = Inr a2"
    and b: "next_free s \<le> a1" "a1 < next_free s1" "next_free s1 \<le> a2"
    and v: "cells s2 a1 = Some (ComplexArr res)" "cells s2 a2 = Some (ComplexArr res)"
    by blast
  have nf: "next_free s = 3" by (simp add: s_def)
  have u: "cells s2 0 = Some (RealVec [1])" "cells s2 1 = Some (RealVec [0, 1])"
    "cells s2 2 = Some (ComplexArr (array1 [1, \<i>]))"
    using k1 k2 n1 h(1,2,3) by (simp_all add: nf)
  have "3 \<le> a1" "a1 < a2" using b by (simp_all add: nf)
  with run1 run2 r u pure v show ?thesis
    unfolding s_def by blast
qed

subsection \<open>A zero kernel argument\<close>

lemma valid_index_replicate_zero: "valid_index (replicate r (Suc 0)) (replicate r 0)"
  by (induction r) simp_all

lemma item_in_ravel: "valid_index (shape a) idx \<Longrightarrow> item a idx \<in> set (ravel a)"
  unfolding ravel_def using set_indices[of "shape a"] by auto

lemma pchip_error_propagates:
  assumes "complex_pchip prim (map (\<lambda>f. 2 * pi * f) frequencies) func_values
             (map (\<lambda>f. 2 * pi * f) frequencies) 1 0 = Inl e"
  shows "fourier_integral_fixed_sampling_pchip prim eps times_list frequencies func_values pos neg = Inl e"
  using assms by (simp add: fourier_integral_fixed_sampling_pchip_def Let_def ebind_def)

lemma kernel_argument_zero:
  fixes ts omegas :: "real list"
  assumes m: "m < length ts" and k: "Suc k < length omegas"
    and z: "(omegas ! Suc k - omegas ! k) * ts ! m = 0"
  shows "\<exists>delta eo x. kernel_argument (array1 ts) omegas (Suc (Suc r)) = Inr (delta, eo, x) \<and>
           0 \<in> set (ravel x)"
proof -
  have lr: "length (replicate r (Suc 0)) = r" by simp
  from kernel_argument_represents[OF lr, of ts omegas]
  obtain delta eo x where ka: "kernel_argument (array1 ts) omegas (Suc (Suc r)) = Inr (delta, eo, x)"
    and rx: "represents x (False # False # replicate r True)
               (length ts # (length omegas - 1) # replicate r (Suc 0))
               (\<lambda>idx. (omegas ! Suc (idx ! 1) - omegas ! (idx ! 1)) * ts ! hd idx)"
    by blast
  let ?idx = "m # k # replicate r 0"
  have v: "valid_index (length ts # (length omegas - 1) # replicate r (Suc 0)) ?idx"
    using m k by (simp add: valid_index_replicate_zero)
  have st: "map2 stored_idx (False # False # replicate r True) ?idx = ?idx"
    by (simp add: stored_idx_all_true)
  have sh: "shape x = length ts # (length omegas - 1) # replicate r (Suc 0)"
    using represents_shape[OF rx] by (simp add: stored_dim_all_true)
  have "item x ?idx = 0"
    using representsD[OF rx v] z unfolding st by simp
  moreover have "item x ?idx \<in> set (ravel x)"
    using v unfolding sh[symmetric] by (rule item_in_ravel)
  ultimately show ?thesis using ka by auto
qed

text \<open>
  When two neighbouring frequencies are equal, or a time is 0, an element of the
  kernel argument \<open>x = delta_omegas * times\<close> is 0 and the call does not return an
  array, whatever the interpolation routine does.
\<close>

lemma zero_kernel_argument_raises:
  assumes sv: "shape func_values = N # S"
    and m: "m < length times_list" and k: "Suc k < length frequencies"
    and z: "frequencies ! Suc k = frequencies ! k \<or> times_list ! m = 0"
  shows "\<exists>e. fourier_integral_fixed_sampling_pchip prim eps times_list frequencies func_values pos neg = Inl e"
proof -
  define omegas where "omegas = map (\<lambda>f. 2 * pi * f) frequencies"
  have k': "Suc k < length omegas" using k by (simp add: omegas_def)
  have z': "(omegas ! Suc k - omegas ! k) * times_list ! m = 0"
    using z k by (auto simp: omegas_def)
  from kernel_argument_zero[OF m k' z', of "length S"]
  obtain delta eo x where
    ka: "kernel_argument (array1 times_list) omegas (Suc (Suc (length S))) = Inr (delta, eo, x)"
    and zx: "0 \<in> set (ravel x)"
    by blast
  have pp: "phi_and_psi eps x =
      Inl (RuntimeError ''Phi and Psi calculation failed to converge after 1000 iterations'')"
    using phi_and_psi_flat_zero[OF zx] by (simp add: phi_and_psi_def ebind_def)
  have fs: "filon_sum eps (array1 times_list) omegas func_values fd =
      Inl (RuntimeError ''Phi and Psi calculation failed to converge after 1000 iterations'')" for fd
    unfolding filon_sum_def Let_def
    by (simp add: expand_first_def sv ka pp ebind_def)
  show ?thesis
    unfolding fourier_integral_fixed_sampling_pchip_def Let_def omegas_def[symmetric]
    by (auto simp: ebind_def fs split: sum.splits)
qed

end
